theory Spec2Isabelle
  imports Main "HOL-Library.Word"
begin

unbundle bit_operations_syntax

section \<open>Process state and environment\<close>

text \<open>
  The three source files each define \<open>randombytes\<close> under preprocessor conditionals, so a
  build links exactly one of them. Every variant is modelled as a function on one record
  \<open>world\<close> that holds the linear memory, the two file-scope statics of the sources
  (\<open>rng_state\<close>, \<open>fd\<close>), the answers the environment is going to give to the external
  calls, and two ghost fields: the addresses stored to and the external calls made, both
  in program order.

  Lengths and addresses are \<open>nat\<close>: in every loop of the sources the counter stays below
  \<open>outlen\<close> and the remaining length only decreases, so no \<open>size_t\<close> computation wraps.
  The destination is assumed to be valid memory, as C requires of the caller; the host
  bridge alone checks it, when JavaScript builds the view over it.
\<close>

type_synonym u8 = "8 word"
type_synonym u32 = "32 word"
type_synonym u64 = "64 word"
type_synonym addr = nat

datatype errno = EINTR | EAGAIN | EIO | EBADF | ENOENT | EACCES | EMFILE | ENOSYS

text \<open>
  What the kernel answers to \<open>getrandom\<close> or \<open>read\<close>: \<open>Fail e\<close> is a return of -1 with
  \<open>errno = e\<close> and nothing transferred; \<open>Avail bs\<close> means the bytes \<open>bs\<close> are ready, of
  which the call transfers as many as were asked for and returns that count (a short
  count when fewer are ready, 0 when none are).
\<close>

datatype xfer = Fail errno | Avail "u8 list"

text \<open>What the kernel answers to \<open>open\<close>: -1 with an errno, or a non-negative descriptor.\<close>

datatype open_res = OpenFail errno | Opened nat

text \<open>
  What the Windows service answers to \<open>CryptGenRandom\<close>: FALSE, or TRUE having filled the
  whole range it was given, byte \<open>i\<close> of the range with \<open>g i\<close>.
\<close>

datatype gen_res = GenFalse | GenTrue "nat \<Rightarrow> u8"

text \<open>
  The JavaScript host of the Emscripten module. A host generator asked for \<open>n\<close> bytes
  either throws (\<open>None\<close>) or yields \<open>n\<close> bytes, byte \<open>i\<close> being \<open>g i\<close>.

  A global name of the host is \<open>Undefined\<close> when \<open>typeof\<close> gives \<open>'undefined'\<close> for it,
  \<open>Null\<close> when it is bound to \<open>null\<close> (\<open>typeof\<close> gives \<open>'object'\<close>, and reading a property
  of it or calling it throws a TypeError), and \<open>Bound\<close> to a value otherwise.
  \<^item> \<open>heapu8\<close>: \<open>None\<close> when \<open>Module.HEAPU8\<close> is missing, so that \<open>Module.HEAPU8.buffer\<close>
    throws; else the byte length of its buffer. \<open>new Uint8Array(buffer, buf, len)\<close> throws
    a RangeError when \<open>buf + len\<close> exceeds that length.
  \<^item> \<open>crypto\<close>: when bound, the value of its property \<open>getRandomValues\<close> (\<open>None\<close> when the
    property is missing or falsy).
  \<^item> \<open>globalThis\<close>: when bound, the value of its property \<open>crypto\<close> (\<open>None\<close> when missing
    or falsy, \<open>null\<close> included), and of that the property \<open>getRandomValues\<close>.
  \<^item> \<open>require\<close>: when bound, what \<open>require('crypto')\<close> gives: \<open>None\<close> when it throws, or the
    module's \<open>randomBytes\<close>.
\<close>

type_synonym rand_fn = "nat \<Rightarrow> (nat \<Rightarrow> u8) option"

datatype 'a binding = Undefined | Null | Bound 'a

record host_env =
  heapu8 :: "nat option"
  crypto :: "rand_fn option binding"
  globalThis :: "rand_fn option option binding"
  require :: "rand_fn option binding"

datatype via = ViaCrypto | ViaGlobalThis

datatype call =
    CryptAcquireContext
  | CryptGenRandom nat addr
  | CryptReleaseContext
  | Getrandom addr nat
  | Open
  | Read int addr nat
  | GetRandomValues via nat
  | Require
  | RandomBytes nat
  | ConsoleError
  | Abort

record world =
  mem :: "addr \<Rightarrow> u8"
  wlog :: "addr list"
  calls :: "call list"
  rng_state :: u32
  fd :: int
  xfers :: "xfer list"
  opens :: "open_res list"
  acquires :: "bool list"
  gens :: "gen_res list"
  releases :: "bool list"
  host :: host_env

text \<open>
  How a call of \<open>randombytes\<close> ends. \<open>Returned\<close>: control is back at the caller.
  \<open>Aborted\<close>: \<open>abort()\<close> ended the process; the state is what the process had reached
  and no caller sees it. \<open>Pending\<close>: the environment script of the world ran out while the
  call was waiting for an answer, so the model says nothing about how it ends.
\<close>

datatype 'a outcome = Returned 'a | Aborted world | Pending world

text \<open>
  The static initialisers of the sources, in an environment that answers nothing. The
  module's memory has the 16 MiB Emscripten gives it by default.
\<close>

definition process_start :: "(addr \<Rightarrow> u8) \<Rightarrow> world" where
  "process_start m =
     \<lparr> mem = m, wlog = [], calls = [], rng_state = 12345, fd = - 1,
       xfers = [], opens = [], acquires = [], gens = [], releases = [],
       host = \<lparr> heapu8 = Some 16777216, crypto = Undefined, globalThis = Undefined,
                require = Undefined \<rparr> \<rparr>"

definition store :: "addr \<Rightarrow> u8 \<Rightarrow> world \<Rightarrow> world" where
  "store a b w = w\<lparr> mem := (mem w)(a := b), wlog := wlog w @ [a] \<rparr>"

fun store_list :: "addr \<Rightarrow> u8 list \<Rightarrow> world \<Rightarrow> world" where
  "store_list a [] w = w"
| "store_list a (b # bs) w = store_list (Suc a) bs (store a b w)"

definition called :: "call \<Rightarrow> world \<Rightarrow> world" where
  "called c w = w\<lparr> calls := calls w @ [c] \<rparr>"

definition abort :: "world \<Rightarrow> 'a outcome" where
  "abort w = Aborted (called Abort w)"

text \<open>The buffer as the caller reads it back.\<close>

definition peek :: "addr \<Rightarrow> nat \<Rightarrow> world \<Rightarrow> u8 list" where
  "peek out n w = map (mem w) [out ..< out + n]"

text \<open>The stores a call has made: the part of the log that was added since \<open>w\<close>.\<close>

definition stores_since :: "world \<Rightarrow> world \<Rightarrow> addr list" where
  "stores_since w w' = drop (length (wlog w)) (wlog w')"

definition calls_since :: "world \<Rightarrow> world \<Rightarrow> call list" where
  "calls_since w w' = drop (length (calls w)) (calls w')"

text \<open>
  The memory \<open>m\<close> with the bytes \<open>bs\<close> laid over it from address \<open>out\<close> on, and what a
  complete fill of \<open>L\<close> bytes at \<open>out\<close> with the bytes \<open>bs\<close> comes to: there are \<open>L\<close> of them,
  memory is the old memory with them laid over it and is the same elsewhere, and the
  addresses the call stored to are those of the buffer, each once, in order.
\<close>

definition overlay :: "addr \<Rightarrow> u8 list \<Rightarrow> (addr \<Rightarrow> u8) \<Rightarrow> addr \<Rightarrow> u8" where
  "overlay out bs m = (\<lambda>a. if out \<le> a \<and> a < out + length bs then bs ! (a - out) else m a)"

definition filled :: "addr \<Rightarrow> nat \<Rightarrow> u8 list \<Rightarrow> world \<Rightarrow> world \<Rightarrow> bool" where
  "filled out L bs w w' \<longleftrightarrow>
     length bs = L \<and> mem w' = overlay out bs (mem w) \<and> stores_since w w' = [out ..< out + L]"

fun final :: "world outcome \<Rightarrow> world" where
  "final (Returned w) = w"
| "final (Aborted w) = w"
| "final (Pending w) = w"

definition and_then :: "world outcome \<Rightarrow> (world \<Rightarrow> 'a outcome) \<Rightarrow> 'a outcome" where
  "and_then r k = (case r of Returned w \<Rightarrow> k w | Aborted w \<Rightarrow> Aborted w | Pending w \<Rightarrow> Pending w)"

subsection \<open>What the primitive updates leave alone\<close>

lemma store_fields [simp]:
  "mem (store a b w) = (mem w)(a := b)"
  "wlog (store a b w) = wlog w @ [a]"
  "calls (store a b w) = calls w"
  "rng_state (store a b w) = rng_state w"
  "fd (store a b w) = fd w"
  "xfers (store a b w) = xfers w"
  "opens (store a b w) = opens w"
  "acquires (store a b w) = acquires w"
  "gens (store a b w) = gens w"
  "releases (store a b w) = releases w"
  "host (store a b w) = host w"
  by (simp_all add: store_def)

lemma called_fields [simp]:
  "mem (called c w) = mem w"
  "wlog (called c w) = wlog w"
  "calls (called c w) = calls w @ [c]"
  "rng_state (called c w) = rng_state w"
  "fd (called c w) = fd w"
  "xfers (called c w) = xfers w"
  "opens (called c w) = opens w"
  "acquires (called c w) = acquires w"
  "gens (called c w) = gens w"
  "releases (called c w) = releases w"
  "host (called c w) = host w"
  by (simp_all add: called_def)

lemma store_list_fields [simp]:
  "calls (store_list a bs w) = calls w"
  "rng_state (store_list a bs w) = rng_state w"
  "fd (store_list a bs w) = fd w"
  "xfers (store_list a bs w) = xfers w"
  "opens (store_list a bs w) = opens w"
  "acquires (store_list a bs w) = acquires w"
  "gens (store_list a bs w) = gens w"
  "releases (store_list a bs w) = releases w"
  "host (store_list a bs w) = host w"
  by (induction bs arbitrary: a w; simp)+

lemma store_list_wlog [simp]:
  "wlog (store_list a bs w) = wlog w @ [a ..< a + length bs]"
proof (induction bs arbitrary: a w)
  case Nil
  show ?case by simp
next
  case (Cons b bs)
  have range: "[a ..< a + length (b # bs)] = a # [Suc a ..< Suc a + length bs]"
    by (subst upt_rec) simp
  have "wlog (store_list a (b # bs) w) = (wlog w @ [a]) @ [Suc a ..< Suc a + length bs]"
    by (simp only: store_list.simps Cons.IH store_fields)
  then show ?case by (simp only: range append_assoc append_Cons append_Nil)
qed

lemma store_list_mem:
  "mem (store_list a bs w) x = (if a \<le> x \<and> x < a + length bs then bs ! (x - a) else mem w x)"
proof (induction bs arbitrary: a w)
  case Nil
  show ?case by auto
next
  case (Cons b bs)
  have IH: "mem (store_list (Suc a) bs (store a b w)) x =
      (if Suc a \<le> x \<and> x < Suc a + length bs then bs ! (x - Suc a) else mem (store a b w) x)"
    by (rule Cons.IH)
  show ?case
    unfolding store_list.simps IH by (auto simp: nth_Cons')
qed

section \<open>Test generator (dilithium5/src/randombytes.c, Emscripten branch)\<close>

text \<open>
  The source, with \<open>static uint32_t rng_state = 12345;\<close> at file scope:
  \<^verbatim>\<open>for (size_t i = 0; i < outlen; i++) {\<close>
  \<^verbatim>\<open>    rng_state = rng_state * 1103515245 + 12345;\<close>
  \<^verbatim>\<open>    out[i] = (rng_state >> 16) & 0xFF;\<close>
  \<^verbatim>\<open>}\<close>
  The arithmetic is that of \<open>uint32_t\<close>, so it wraps at \<open>2 ^ 32\<close>, as \<open>32 word\<close> does.
\<close>

definition lcg_next :: "u32 \<Rightarrow> u32" where
  "lcg_next s = s * 1103515245 + 12345"

definition lcg_byte :: "u32 \<Rightarrow> u8" where
  "lcg_byte s = ucast (drop_bit 16 s AND 0xFF)"

function lcg_loop :: "nat \<Rightarrow> addr \<Rightarrow> nat \<Rightarrow> world \<Rightarrow> world" where
  "lcg_loop i out outlen w =
     (if i < outlen then
        let w1 = w\<lparr> rng_state := lcg_next (rng_state w) \<rparr>;
            w2 = store (out + i) (lcg_byte (rng_state w1)) w1
        in lcg_loop (i + 1) out outlen w2
      else w)"
  by pat_completeness auto
termination
  by (relation "measure (\<lambda>(i, out, outlen, w). outlen - i)") auto

definition randombytes_lcg :: "addr \<Rightarrow> nat \<Rightarrow> world \<Rightarrow> world outcome" where
  "randombytes_lcg out outlen w = Returned (lcg_loop 0 out outlen w)"

declare lcg_loop.simps [simp del]

text \<open>
  The recurrence and the byte selection as the specification words them, on natural
  numbers: multiplier 1103515245 and increment 12345 modulo \<open>2 ^ 32\<close>, and bits 16 to 23.
  They are compared with \<open>lcg_next\<close> and \<open>lcg_byte\<close>, which transcribe the C expressions.
\<close>

definition recurrence :: "nat \<Rightarrow> nat" where
  "recurrence s = (s * 1103515245 + 12345) mod 2 ^ 32"

definition bits_16_23 :: "nat \<Rightarrow> nat" where
  "bits_16_23 s = (s div 2 ^ 16) mod 2 ^ 8"

text \<open>The \<open>L\<close> bytes the generator is expected to produce from the state \<open>s\<close>.\<close>

definition lcg_supply :: "u32 \<Rightarrow> nat \<Rightarrow> u8 list" where
  "lcg_supply s L = map (\<lambda>k. lcg_byte ((lcg_next ^^ Suc k) s)) [0 ..< L]"

section \<open>Platform crypto service (dilithium5/src/randombytes.c, \<open>_WIN32\<close> branch)\<close>

text \<open>
  The source acquires the context, runs the loop below, and releases the context; each of
  the three service functions returning FALSE leads to \<open>abort()\<close>:
  \<^verbatim>\<open>while(outlen > 0) {\<close>
  \<^verbatim>\<open>  len = (outlen > 1048576) ? 1048576 : outlen;\<close>
  \<^verbatim>\<open>  if(!CryptGenRandom(ctx, len, (BYTE *)out)) abort();\<close>
  \<^verbatim>\<open>  out += len; outlen -= len;\<close>
  \<^verbatim>\<open>}\<close>
  \<open>len\<close> is a 32-bit \<open>DWORD\<close>; it never exceeds 1048576, so the assignment loses nothing.
\<close>

function win_loop :: "addr \<Rightarrow> nat \<Rightarrow> world \<Rightarrow> world outcome" where
  "win_loop out outlen w =
     (if outlen > 0 then
        let len = (if outlen > 1048576 then 1048576 else outlen);
            w1 = called (CryptGenRandom len out) w
        in (case gens w1 of
              [] \<Rightarrow> Pending w1
            | r # rs \<Rightarrow>
                let w2 = w1\<lparr> gens := rs \<rparr> in
                (case r of
                   GenFalse \<Rightarrow> abort w2
                 | GenTrue g \<Rightarrow>
                     win_loop (out + len) (outlen - len) (store_list out (map g [0 ..< len]) w2)))
      else Returned w)"
  by pat_completeness auto
termination
  by (relation "measure (\<lambda>(out, outlen, w). outlen)") auto

declare win_loop.simps [simp del]

definition randombytes_win32 :: "addr \<Rightarrow> nat \<Rightarrow> world \<Rightarrow> world outcome" where
  "randombytes_win32 out outlen w =
     (let w1 = called CryptAcquireContext w in
      case acquires w1 of
        [] \<Rightarrow> Pending w1
      | ok # rest \<Rightarrow>
          let w2 = w1\<lparr> acquires := rest \<rparr> in
          if \<not> ok then abort w2
          else and_then (win_loop out outlen w2) (\<lambda>w3.
            let w4 = called CryptReleaseContext w3 in
            case releases w4 of
              [] \<Rightarrow> Pending w4
            | ok # rest \<Rightarrow>
                let w5 = w4\<lparr> releases := rest \<rparr> in
                if \<not> ok then abort w5 else Returned w5))"

text \<open>
  The length of the next service call when \<open>n\<close> bytes remain (the conditional expression
  of the loop), and the \<open>k\<close> service calls a request for \<open>n\<close> bytes at \<open>out\<close> is
  expected to make when each chunk is asked for once, in address order.
\<close>

definition chunk :: "nat \<Rightarrow> nat" where
  "chunk n = (if n > 1048576 then 1048576 else n)"

fun chunk_calls :: "nat \<Rightarrow> addr \<Rightarrow> nat \<Rightarrow> call list" where
  "chunk_calls 0 out n = []"
| "chunk_calls (Suc k) out n = CryptGenRandom (chunk n) out # chunk_calls k (out + chunk n) (n - chunk n)"

text \<open>
  The bytes the service hands over to a request for \<open>n\<close> bytes when its answers to the
  generate calls are \<open>gs\<close>: chunk after chunk, what each successful answer fills its
  chunk with.
\<close>

fun service_supply :: "gen_res list \<Rightarrow> nat \<Rightarrow> u8 list" where
  "service_supply [] n = []"
| "service_supply (GenFalse # gs) n = []"
| "service_supply (GenTrue g # gs) n =
     (if n = 0 then [] else map g [0 ..< chunk n] @ service_supply gs (n - chunk n))"

section \<open>Kernel backends (dilithium5/src/randombytes.c, Linux and generic POSIX branches)\<close>

text \<open>
  The Linux branch, with \<open>ret\<close> an \<open>ssize_t\<close>:
  \<^verbatim>\<open>while(outlen > 0) {\<close>
  \<^verbatim>\<open>  ret = syscall(SYS_getrandom, out, outlen, 0);\<close>
  \<^verbatim>\<open>  if(ret == -1 && errno == EINTR) continue;\<close>
  \<^verbatim>\<open>  else if(ret == -1) abort();\<close>
  \<^verbatim>\<open>  out += ret; outlen -= ret;\<close>
  \<^verbatim>\<open>}\<close>
  The generic POSIX branch has the same loop with \<open>read(fd, out, outlen)\<close> for the system
  call, after a loop that opens the device while the static \<open>fd\<close> is -1:
  \<^verbatim>\<open>while(fd == -1) {\<close>
  \<^verbatim>\<open>  fd = open("/dev/urandom", O_RDONLY);\<close>
  \<^verbatim>\<open>  if(fd == -1 && errno == EINTR) continue;\<close>
  \<^verbatim>\<open>  else if(fd == -1) abort();\<close>
  \<^verbatim>\<open>}\<close>
  The two read loops differ in the call they issue and in nothing else, so one loop
  stands for both, with the call as its parameter \<open>sys\<close>.
\<close>

function fill_loop :: "(addr \<Rightarrow> nat \<Rightarrow> world \<Rightarrow> call) \<Rightarrow> addr \<Rightarrow> nat \<Rightarrow> world \<Rightarrow> world outcome" where
  "fill_loop sys out outlen w =
     (if outlen > 0 then
        let w1 = called (sys out outlen w) w
        in (case xfers w1 of
              [] \<Rightarrow> Pending w1
            | r # rs \<Rightarrow>
                let w2 = w1\<lparr> xfers := rs \<rparr> in
                (case r of
                   Fail e \<Rightarrow> if e = EINTR then fill_loop sys out outlen w2 else abort w2
                 | Avail bs \<Rightarrow>
                     let got = take outlen bs; ret = length got
                     in fill_loop sys (out + ret) (outlen - ret) (store_list out got w2)))
      else Returned w)"
  by pat_completeness auto
termination
  by (relation "measure (\<lambda>(sys, out, outlen, w). length (xfers w))") auto

declare fill_loop.simps [simp del]

definition sys_getrandom :: "addr \<Rightarrow> nat \<Rightarrow> world \<Rightarrow> call" where
  "sys_getrandom out outlen w = Getrandom out outlen"

definition sys_read :: "addr \<Rightarrow> nat \<Rightarrow> world \<Rightarrow> call" where
  "sys_read out outlen w = Read (fd w) out outlen"

definition randombytes_linux :: "addr \<Rightarrow> nat \<Rightarrow> world \<Rightarrow> world outcome" where
  "randombytes_linux out outlen w = fill_loop sys_getrandom out outlen w"

function open_loop :: "world \<Rightarrow> world outcome" where
  "open_loop w =
     (if fd w = - 1 then
        let w1 = called Open w
        in (case opens w1 of
              [] \<Rightarrow> Pending w1
            | r # rs \<Rightarrow>
                let w2 = w1\<lparr> opens := rs \<rparr> in
                (case r of
                   OpenFail e \<Rightarrow>
                     let w3 = w2\<lparr> fd := - 1 \<rparr>
                     in if e = EINTR then open_loop w3 else abort w3
                 | Opened n \<Rightarrow> open_loop (w2\<lparr> fd := int n \<rparr>)))
      else Returned w)"
  by pat_completeness auto
termination
  by (relation "measure (\<lambda>w. length (opens w))") auto

declare open_loop.simps [simp del]

definition randombytes_posix :: "addr \<Rightarrow> nat \<Rightarrow> world \<Rightarrow> world outcome" where
  "randombytes_posix out outlen w = and_then (open_loop w) (fill_loop sys_read out outlen)"

text \<open>
  The caller's side of the device-file build: a process that calls \<open>randombytes\<close> for
  one request after the other, each request a destination and a length. The static \<open>fd\<close>
  lives in the world, so it is carried from call to call.
\<close>

fun posix_session :: "(addr \<times> nat) list \<Rightarrow> world \<Rightarrow> world outcome" where
  "posix_session [] w = Returned w"
| "posix_session ((out, outlen) # reqs) w =
     and_then (randombytes_posix out outlen w) (posix_session reqs)"

text \<open>Whether an answer to \<open>open\<close> is a descriptor.\<close>

fun succeeded :: "open_res \<Rightarrow> bool" where
  "succeeded (Opened k) = True"
| "succeeded (OpenFail e) = False"

text \<open>
  The bytes the kernel hands over to a request for \<open>n\<close> bytes when its answers are \<open>xs\<close>:
  what each transfer delivers, in the order of the answers, an interrupted call
  delivering nothing, until \<open>n\<close> bytes are there.
\<close>

fun kernel_supply :: "xfer list \<Rightarrow> nat \<Rightarrow> u8 list" where
  "kernel_supply [] n = []"
| "kernel_supply (Fail e # xs) n = (if n = 0 \<or> e \<noteq> EINTR then [] else kernel_supply xs n)"
| "kernel_supply (Avail bs # xs) n =
     (if n = 0 then [] else take n bs @ kernel_supply xs (n - length (take n bs)))"

section \<open>Host bridge (dilithium5/src/randombytes_wasm.c and kyber1024/src/randombytes.c)\<close>

text \<open>
  Both files define the same JavaScript function \<open>crypto_get_random_values(buf, len)\<close>: a
  \<open>try\<close> block that builds a \<open>Uint8Array\<close> view of \<open>len\<close> bytes at \<open>buf\<close> and then takes
  the first branch whose test holds,
  \<^item> \<open>typeof crypto !== 'undefined' && crypto.getRandomValues\<close>: call
    \<open>crypto.getRandomValues(array)\<close>;
  \<^item> \<open>typeof globalThis !== 'undefined' && globalThis.crypto &&
    globalThis.crypto.getRandomValues\<close>: call \<open>globalThis.crypto.getRandomValues(array)\<close>;
  \<^item> \<open>typeof require !== 'undefined'\<close>: \<open>require('crypto')\<close>, then \<open>randomBytes(len)\<close> of
    that module, then \<open>array.set(bytes)\<close>;
  \<^item> otherwise: throw an error;

  and a \<open>catch\<close> block that calls \<open>console.error\<close> and then \<open>abort()\<close>.

  \<open>try_block\<close> is the body of the \<open>try\<close> block: \<open>Inl\<close> when an exception leaves it,
  \<open>Inr\<close> when it completes. An exception leaves it
  \<^item> when the view cannot be built;
  \<^item> when a test throws: \<open>crypto\<close> or \<open>globalThis\<close> is \<open>null\<close>, so that \<open>typeof\<close> lets it
    pass and the property read throws;
  \<^item> when \<open>require\<close> is \<open>null\<close> and is called, or \<open>require('crypto')\<close> throws;
  \<^item> when the function that is called throws;
  \<^item> in the last branch, which throws itself.
\<close>

definition invoke :: "call \<Rightarrow> rand_fn \<Rightarrow> addr \<Rightarrow> nat \<Rightarrow> world \<Rightarrow> world + world" where
  "invoke c f buf len w =
     (let w1 = called c w in
      case f len of
        None \<Rightarrow> Inl w1
      | Some g \<Rightarrow> Inr (store_list buf (map g [0 ..< len]) w1))"

definition try_block :: "addr \<Rightarrow> nat \<Rightarrow> world \<Rightarrow> world + world" where
  "try_block buf len w =
     (case heapu8 (host w) of
        None \<Rightarrow> Inl w
      | Some byteLength \<Rightarrow>
          if byteLength < buf + len then Inl w
          else
            (case crypto (host w) of
               Null \<Rightarrow> Inl w
             | Bound (Some grv) \<Rightarrow> invoke (GetRandomValues ViaCrypto len) grv buf len w
             | _ \<Rightarrow>
               (case globalThis (host w) of
                  Null \<Rightarrow> Inl w
                | Bound (Some (Some grv)) \<Rightarrow>
                    invoke (GetRandomValues ViaGlobalThis len) grv buf len w
                | _ \<Rightarrow>
                  (case require (host w) of
                     Undefined \<Rightarrow> Inl w
                   | Null \<Rightarrow> Inl w
                   | Bound ld \<Rightarrow>
                       (let w1 = called Require w in
                        case ld of
                          None \<Rightarrow> Inl w1
                        | Some rb \<Rightarrow> invoke (RandomBytes len) rb buf len w1)))))"

definition crypto_get_random_values :: "addr \<Rightarrow> nat \<Rightarrow> world \<Rightarrow> world outcome" where
  "crypto_get_random_values buf len w =
     (case try_block buf len w of
        Inr w' \<Rightarrow> Returned w'
      | Inl w' \<Rightarrow> abort (called ConsoleError w'))"

definition randombytes_wasm :: "addr \<Rightarrow> nat \<Rightarrow> world \<Rightarrow> world outcome" where
  "randombytes_wasm out outlen w = crypto_get_random_values out outlen w"

text \<open>
  The Kyber entry point takes an \<open>unsigned long long\<close> and casts it to \<open>size_t\<close>, which
  has 32 bits on the wasm32 target Emscripten builds for.
\<close>

definition size_t_of :: "u64 \<Rightarrow> nat" where
  "size_t_of xlen = unat (ucast xlen :: u32)"

definition randombytes_kyber :: "addr \<Rightarrow> u64 \<Rightarrow> world \<Rightarrow> (world \<times> int) outcome" where
  "randombytes_kyber x xlen w =
     (case crypto_get_random_values x (size_t_of xlen) w of
        Returned w' \<Rightarrow> Returned (w', 0)
      | Aborted w' \<Rightarrow> Aborted w'
      | Pending w' \<Rightarrow> Pending w')"

definition randombytes_init :: "addr \<Rightarrow> addr \<Rightarrow> int \<Rightarrow> world \<Rightarrow> world" where
  "randombytes_init entropy_input personalization_string security_strength w = w"

text \<open>Whether the view of \<open>len\<close> bytes at \<open>buf\<close> can be built.\<close>

definition view_fits :: "addr \<Rightarrow> nat \<Rightarrow> world \<Rightarrow> bool" where
  "view_fits buf len w =
     (case heapu8 (host w) of None \<Rightarrow> False | Some byteLength \<Rightarrow> buf + len \<le> byteLength)"

text \<open>
  What invoking one host generator \<open>f\<close> through the call \<open>c\<close> is expected to come to: the
  bytes it yields fill the view and the call returns, or it throws and the process is
  aborted after a diagnostic.
\<close>

definition served :: "call \<Rightarrow> rand_fn \<Rightarrow> addr \<Rightarrow> nat \<Rightarrow> world \<Rightarrow> world outcome" where
  "served c f buf len w =
     (case f len of
        Some g \<Rightarrow> Returned (store_list buf (map g [0 ..< len]) (called c w))
      | None \<Rightarrow> Aborted (called Abort (called ConsoleError (called c w))))"

section \<open>Sample worlds\<close>

text \<open>
  A process whose device descriptor is already 3 and whose kernel is going to give the
  answers \<open>xs\<close> to \<open>getrandom\<close> or \<open>read\<close>, over zeroed memory.
\<close>

definition scripted :: "xfer list \<Rightarrow> world" where
  "scripted xs = (process_start (\<lambda>a. 0))\<lparr> fd := 3, xfers := xs \<rparr>"

text \<open>A fresh process whose kernel is going to give the answers \<open>os\<close> to \<open>open\<close>.\<close>

definition unopened :: "open_res list \<Rightarrow> xfer list \<Rightarrow> world" where
  "unopened os xs = (process_start (\<lambda>a. 0))\<lparr> xfers := xs, opens := os \<rparr>"

text \<open>
  A fresh process whose service provider grants the context, answers \<open>gs\<close> to the
  generate calls, and lets the context go.
\<close>

definition serviced :: "gen_res list \<Rightarrow> world" where
  "serviced gs = (process_start (\<lambda>a. 0))\<lparr> acquires := [True], gens := gs, releases := [True] \<rparr>"

text \<open>
  Sample hosts. \<open>web_crypto\<close> behaves as the Web Crypto function does: it fills a view of
  up to 65536 bytes and throws above that quota. \<open>node_bytes\<close> yields any number of bytes.
\<close>

definition web_crypto :: rand_fn where
  "web_crypto n = (if n \<le> 65536 then Some (\<lambda>i. of_nat i + 1) else None)"

definition node_bytes :: rand_fn where
  "node_bytes n = Some (\<lambda>i. of_nat i + 2)"

definition hosted :: "rand_fn option binding \<Rightarrow> rand_fn option option binding \<Rightarrow>
    rand_fn option binding \<Rightarrow> world" where
  "hosted c g r = (process_start (\<lambda>a. 0))
     \<lparr> host := \<lparr> heapu8 = Some 16777216, crypto = c, globalThis = g, require = r \<rparr> \<rparr>"

section \<open>The test generator\<close>

lemma unat_lcg_next: "unat (lcg_next s) = recurrence (unat s)"
  by (simp add: lcg_next_def recurrence_def unat_word_ariths mod_simps)

lemma unat_lcg_byte: "unat (lcg_byte s) = bits_16_23 (unat s)"
proof -
  have m: "(0xFF :: u32) = mask 8" by (simp add: mask_eq_exp_minus_1)
  show ?thesis
    unfolding lcg_byte_def bits_16_23_def m
    by (simp add: unsigned_ucast_eq unsigned_take_bit_eq unat_drop_bit_eq take_bit_eq_mod drop_bit_eq_div unat_div unat_mod flip: take_bit_eq_mask)
qed

lemma unat_lcg_iter: "unat ((lcg_next ^^ k) s) = (recurrence ^^ k) (unat s)"
  by (induction k) (simp_all add: unat_lcg_next)

lemma lcg_loop_rng:
  "i \<le> outlen \<Longrightarrow> rng_state (lcg_loop i out outlen w) = (lcg_next ^^ (outlen - i)) (rng_state w)"
proof (induction i out outlen w rule: lcg_loop.induct)
  case (1 i out outlen w)
  show ?case
  proof (cases "i < outlen")
    case True
    then have "outlen - i = Suc (outlen - (i + 1))" by simp
    with True "1.IH" show ?thesis
      by (subst lcg_loop.simps) (simp add: Let_def funpow_swap1)
  next
    case False
    with "1.prems" show ?thesis by (subst lcg_loop.simps) simp
  qed
qed

lemma lcg_loop_wlog:
  "i \<le> outlen \<Longrightarrow> wlog (lcg_loop i out outlen w) = wlog w @ [out + i ..< out + outlen]"
proof (induction i out outlen w rule: lcg_loop.induct)
  case (1 i out outlen w)
  show ?case
  proof (cases "i < outlen")
    case True
    with "1.IH" show ?thesis
      by (subst lcg_loop.simps) (simp add: Let_def upt_conv_Cons)
  next
    case False
    with "1.prems" show ?thesis by (subst lcg_loop.simps) simp
  qed
qed

lemma lcg_loop_mem:
  "i \<le> outlen \<Longrightarrow> mem (lcg_loop i out outlen w) a =
     (if out + i \<le> a \<and> a < out + outlen
      then lcg_byte ((lcg_next ^^ Suc (a - (out + i))) (rng_state w)) else mem w a)"
proof (induction i out outlen w arbitrary: a rule: lcg_loop.induct)
  case (1 i out outlen w)
  show ?case
  proof (cases "i < outlen")
    case True
    define w1 where "w1 = w\<lparr> rng_state := lcg_next (rng_state w) \<rparr>"
    define w2 where "w2 = store (out + i) (lcg_byte (rng_state w1)) w1"
    have unfold: "lcg_loop i out outlen w = lcg_loop (i + 1) out outlen w2"
      using True by (subst lcg_loop.simps) (simp add: Let_def w1_def w2_def)
    have IH: "mem (lcg_loop (i + 1) out outlen w2) a =
        (if out + (i + 1) \<le> a \<and> a < out + outlen
         then lcg_byte ((lcg_next ^^ Suc (a - (out + (i + 1)))) (rng_state w2)) else mem w2 a)"
      using True by (intro "1.IH" [OF True w1_def w2_def]) simp
    have rng: "rng_state w2 = lcg_next (rng_state w)"
      by (simp add: w2_def w1_def)
    have step: "mem (lcg_loop i out outlen w) a =
        (if out + (i + 1) \<le> a \<and> a < out + outlen
         then lcg_byte ((lcg_next ^^ Suc (a - (out + (i + 1)))) (lcg_next (rng_state w)))
         else mem w2 a)"
      by (simp only: unfold IH rng)
    have here: "mem w2 (out + i) = lcg_byte (lcg_next (rng_state w))"
      by (simp add: w2_def w1_def)
    have there: "a \<noteq> out + i \<Longrightarrow> mem w2 a = mem w a"
      by (simp add: w2_def w1_def)
    consider "a = out + i" | "out + i < a" "a < out + outlen" | "a < out + i" | "out + outlen \<le> a"
      by linarith
    then show ?thesis
    proof cases
      case 1
      show ?thesis unfolding step using 1 \<open>i < outlen\<close> by (simp add: here)
    next
      case 2
      then have "a - (out + i) = Suc (a - (out + (i + 1)))" by simp
      with 2 show ?thesis unfolding step by (simp add: funpow_swap1)
    next
      case 3
      then show ?thesis unfolding step by (simp add: there)
    next
      case 4
      with \<open>i < outlen\<close> show ?thesis unfolding step by (simp add: there)
    qed
  next
    case False
    with "1.prems" show ?thesis by (subst lcg_loop.simps) auto
  qed
qed

lemma lcg_loop_frame:
  "calls (lcg_loop i out outlen w) = calls w"
  "fd (lcg_loop i out outlen w) = fd w"
  by (induction i out outlen w rule: lcg_loop.induct, subst lcg_loop.simps, simp add: Let_def)+


lemma peek_lcg:
  "peek out n (lcg_loop 0 out n w) = map (\<lambda>k. lcg_byte ((lcg_next ^^ Suc k) (rng_state w))) [0 ..< n]"
  by (simp add: peek_def lcg_loop_mem list_eq_iff_nth_eq)

lemma map_upt_split:
  "map f [0 ..< m] @ map (\<lambda>k. f (m + k)) [0 ..< n] = map f [0 ..< m + n]"
  by (induction n) simp_all

lemma funpow_twice: "(f ^^ a) ((f ^^ b) s) = (f ^^ (a + b)) s"
  by (simp only: funpow_add o_apply)

lemma first16_link:
  "map unat (peek out 16 (lcg_loop 0 out 16 (process_start m))) =
     map (\<lambda>k. bits_16_23 ((recurrence ^^ (k + 1)) 12345)) [0 ..< 16]"
proof -
  have seed: "unat (rng_state (process_start m)) = 12345"
    by (simp add: process_start_def)
  show ?thesis
    by (simp only: peek_lcg map_map o_def unat_lcg_byte unat_lcg_iter seed Suc_eq_plus1)
qed

text \<open>
  C2. A call of the test generator returns, and byte \<open>i\<close> of the buffer (counted from 0)
  is then bits 16 to 23 of the state reached by \<open>i + 1\<close> applications of the recurrence
  \<open>s' = s * 1103515245 + 12345 mod 2 ^ 32\<close> to the state the call started from; the state
  it leaves is the one reached by \<open>L\<close> applications. The state of a fresh process is
  12345, and the first 16 bytes a fresh process produces are the fixed sequence below,
  which is the sequence the recurrence gives from seed 12345, whatever the destination
  and whatever the memory held.
\<close>

theorem lcg_output_bytes:
  "(\<exists>w'. randombytes_lcg out L w = Returned w' \<and>
      (\<forall>i<L. unat (mem w' (out + i)) = bits_16_23 ((recurrence ^^ (i + 1)) (unat (rng_state w)))) \<and>
      unat (rng_state w') = (recurrence ^^ L) (unat (rng_state w))) \<and>
   rng_state (process_start m) = 12345 \<and>
   (\<exists>w'. randombytes_lcg out 16 (process_start m) = Returned w' \<and>
      peek out 16 w' = [220, 4, 101, 170, 31, 173, 29, 90, 218, 229, 172, 27, 30, 95, 19, 112] \<and>
      map unat (peek out 16 w') = map (\<lambda>k. bits_16_23 ((recurrence ^^ (k + 1)) 12345)) [0 ..< 16])"
proof -
  have bytes: "\<forall>i<L. unat (mem (lcg_loop 0 out L w) (out + i)) =
      bits_16_23 ((recurrence ^^ (i + 1)) (unat (rng_state w)))"
    by (simp add: lcg_loop_mem unat_lcg_byte unat_lcg_iter unat_lcg_next del: funpow.simps)
  have state: "unat (rng_state (lcg_loop 0 out L w)) = (recurrence ^^ L) (unat (rng_state w))"
    by (simp add: lcg_loop_rng unat_lcg_iter)
  have seed: "rng_state (process_start m) = 12345"
    by (simp add: process_start_def)
  have "peek out 16 (lcg_loop 0 out 16 (process_start m)) =
      map (\<lambda>k. lcg_byte ((lcg_next ^^ Suc k) 12345)) [0 ..< 16]"
    by (simp only: peek_lcg seed)
  also have "\<dots> = [220, 4, 101, 170, 31, 173, 29, 90, 218, 229, 172, 27, 30, 95, 19, 112]"
    by (simp add: upt_conv_Cons lcg_next_def lcg_byte_def)
  finally have first16: "peek out 16 (lcg_loop 0 out 16 (process_start m)) =
      [220, 4, 101, 170, 31, 173, 29, 90, 218, 229, 172, 27, 30, 95, 19, 112]" .
  show ?thesis
    unfolding randombytes_lcg_def using bytes state seed first16 first16_link [of out m] by blast
qed

theorem lcg_output_bytes_witness:
  "\<exists>w'. randombytes_lcg 100 3 (process_start (\<lambda>a. 0)) = Returned w' \<and> mem w' 102 = 101"
proof -
  from lcg_output_bytes [of 100 3 "process_start (\<lambda>a. 0)" "\<lambda>a. 0"]
  obtain w' where r: "randombytes_lcg 100 3 (process_start (\<lambda>a. 0)) = Returned w'"
    and b: "\<forall>i<3. unat (mem w' (100 + i)) =
      bits_16_23 ((recurrence ^^ (i + 1)) (unat (rng_state (process_start (\<lambda>a. 0)))))"
    by blast
  have "unat (mem w' (100 + 2)) =
      bits_16_23 ((recurrence ^^ (2 + 1)) (unat (rng_state (process_start (\<lambda>a. 0)))))"
    by (rule b [rule_format]) simp
  also have "\<dots> = bits_16_23 (recurrence (recurrence (recurrence 12345)))"
    by (simp add: process_start_def numeral_3_eq_3)
  also have "\<dots> = 101"
    by (simp add: bits_16_23_def recurrence_def)
  finally have "unat (mem w' 102) = unat (101 :: u8)" by simp
  then have "mem w' 102 = 101" by (simp only: word_unat_eq_iff)
  with r show ?thesis by blast
qed

text \<open>
  C9. What the test generator writes does not depend on what the buffer held: two calls
  that start from the same generator state with the same length, in worlds that may
  differ in everything else (the memory in particular), both return, leave the same
  bytes in the buffer and the same generator state, and store to the same addresses.
\<close>

theorem lcg_ignores_buffer:
  "rng_state w1 = rng_state w2 \<Longrightarrow>
   (\<exists>w1' w2'. randombytes_lcg out L w1 = Returned w1' \<and> randombytes_lcg out L w2 = Returned w2' \<and>
      peek out L w1' = peek out L w2' \<and> rng_state w1' = rng_state w2' \<and>
      stores_since w1 w1' = stores_since w2 w2')"
  by (simp add: randombytes_lcg_def peek_lcg lcg_loop_rng lcg_loop_wlog stores_since_def)


theorem lcg_ignores_buffer_witness:
  "mem (process_start (\<lambda>a. 0)) 0 \<noteq> mem (process_start (\<lambda>a. 255)) 0 \<and>
   (\<exists>w1' w2'. randombytes_lcg 0 4 (process_start (\<lambda>a. 0)) = Returned w1' \<and>
      randombytes_lcg 0 4 (process_start (\<lambda>a. 255)) = Returned w2' \<and>
      peek 0 4 w1' = peek 0 4 w2' \<and> rng_state w1' = rng_state w2')"
proof -
  have differ: "mem (process_start (\<lambda>a. 0)) 0 \<noteq> mem (process_start (\<lambda>a. 255)) 0"
    by (simp add: process_start_def)
  have same: "rng_state (process_start (\<lambda>a. 0)) = rng_state (process_start (\<lambda>a. 255))"
    by (simp add: process_start_def)
  from lcg_ignores_buffer [OF same, of 0 4] differ show ?thesis by blast
qed

text \<open>
  C10. The test generator is a stream: a call for \<open>m\<close> bytes followed by a call for \<open>n\<close>
  bytes yields, as the two buffers read one after the other, the bytes of a single call
  for \<open>m + n\<close> bytes from the same starting state, and ends in the same generator
  state. The three destinations \<open>a\<close>, \<open>b\<close> and \<open>c\<close> are arbitrary.
\<close>

theorem lcg_is_stream:
  "\<exists>w1 w2 w3. randombytes_lcg a m w = Returned w1 \<and> randombytes_lcg b n w1 = Returned w2 \<and>
     randombytes_lcg c (m + n) w = Returned w3 \<and>
     peek a m w1 @ peek b n w2 = peek c (m + n) w3 \<and> rng_state w2 = rng_state w3"
proof -
  define f where "f = (\<lambda>k. lcg_byte ((lcg_next ^^ Suc k) (rng_state w)))"
  have "peek b n (lcg_loop 0 b n (lcg_loop 0 a m w)) = map (\<lambda>k. f (m + k)) [0 ..< n]"
    by (simp only: peek_lcg lcg_loop_rng f_def funpow_twice add_Suc add.commute [of m] diff_zero)
  moreover have "peek a m (lcg_loop 0 a m w) = map f [0 ..< m]"
    and "peek c (m + n) (lcg_loop 0 c (m + n) w) = map f [0 ..< m + n]"
    by (simp_all only: peek_lcg f_def)
  ultimately have "peek a m (lcg_loop 0 a m w) @ peek b n (lcg_loop 0 b n (lcg_loop 0 a m w)) =
      peek c (m + n) (lcg_loop 0 c (m + n) w)"
    by (simp only: map_upt_split)
  moreover have "rng_state (lcg_loop 0 b n (lcg_loop 0 a m w)) = rng_state (lcg_loop 0 c (m + n) w)"
    by (simp only: lcg_loop_rng funpow_twice add.commute [of m] diff_zero le0)
  ultimately show ?thesis by (simp add: randombytes_lcg_def)
qed


section \<open>The kernel read loop\<close>

lemma abort_final [simp]: "final (abort w) = called Abort w"
  by (simp add: abort_def)

lemma fill_loop_done: "fill_loop sys out 0 w = Returned w"
  by (subst fill_loop.simps) simp

lemma fill_loop_starved:
  "0 < n \<Longrightarrow> xfers w = [] \<Longrightarrow> fill_loop sys out n w = Pending (called (sys out n w) w)"
  by (subst fill_loop.simps) (simp add: Let_def)

lemma fill_loop_eintr:
  "0 < n \<Longrightarrow> xfers w = Fail EINTR # rs \<Longrightarrow>
   fill_loop sys out n w = fill_loop sys out n ((called (sys out n w) w)\<lparr> xfers := rs \<rparr>)"
  by (subst fill_loop.simps) (simp add: Let_def)

lemma fill_loop_fail:
  "0 < n \<Longrightarrow> xfers w = Fail e # rs \<Longrightarrow> e \<noteq> EINTR \<Longrightarrow>
   fill_loop sys out n w = abort ((called (sys out n w) w)\<lparr> xfers := rs \<rparr>)"
  by (subst fill_loop.simps) (simp add: Let_def)

lemma fill_loop_avail:
  "0 < n \<Longrightarrow> xfers w = Avail bs # rs \<Longrightarrow>
   fill_loop sys out n w =
     fill_loop sys (out + length (take n bs)) (n - length (take n bs))
       (store_list out (take n bs) ((called (sys out n w) w)\<lparr> xfers := rs \<rparr>))"
  by (subst fill_loop.simps) (simp add: Let_def)

lemma fill_loop_cases:
  fixes n :: nat and w :: world
  obtains (zero) "n = 0"
  | (starved) "0 < n" "xfers w = []"
  | (eintr) rs where "0 < n" "xfers w = Fail EINTR # rs"
  | (fail) e rs where "0 < n" "xfers w = Fail e # rs" "e \<noteq> EINTR"
  | (avail) bs rs where "0 < n" "xfers w = Avail bs # rs"
proof (cases "n = 0")
  case True
  then show ?thesis by (rule zero)
next
  case False
  then have pos: "0 < n" by simp
  show ?thesis
  proof (cases "xfers w")
    case Nil
    with pos show ?thesis by (rule starved)
  next
    case (Cons r rs)
    show ?thesis
    proof (cases r)
      case (Fail e)
      with Cons pos show ?thesis by (cases "e = EINTR") (auto intro: eintr fail)
    next
      case (Avail bs)
      with Cons pos show ?thesis by (auto intro: avail)
    qed
  qed
qed


lemma fill_loop_induct [case_names zero starved eintr fail avail]:
  fixes P :: "addr \<Rightarrow> nat \<Rightarrow> world \<Rightarrow> bool"
  assumes zero: "\<And>out w. P out 0 w"
    and starved: "\<And>out n w. 0 < n \<Longrightarrow> xfers w = [] \<Longrightarrow> P out n w"
    and eintr: "\<And>out n w rs. 0 < n \<Longrightarrow> xfers w = Fail EINTR # rs \<Longrightarrow>
        P out n ((called (sys out n w) w)\<lparr> xfers := rs \<rparr>) \<Longrightarrow> P out n w"
    and fail: "\<And>out n w e rs. 0 < n \<Longrightarrow> xfers w = Fail e # rs \<Longrightarrow> e \<noteq> EINTR \<Longrightarrow> P out n w"
    and avail: "\<And>out n w bs rs. 0 < n \<Longrightarrow> xfers w = Avail bs # rs \<Longrightarrow>
        P (out + length (take n bs)) (n - length (take n bs))
          (store_list out (take n bs) ((called (sys out n w) w)\<lparr> xfers := rs \<rparr>)) \<Longrightarrow> P out n w"
  shows "P out n w"
proof (induction xs \<equiv> "xfers w" arbitrary: w out n)
  case Nil
  show ?case
  proof (cases "n = 0")
    case True
    then show ?thesis by (simp add: assms(1))
  next
    case False
    with Nil show ?thesis by (simp add: assms(2))
  qed
next
  case (Cons r rs)
  show ?case
  proof (cases rule: fill_loop_cases [where n = n and w = w])
    case zero
    then show ?thesis by (simp add: assms(1))
  next
    case starved
    with Cons.hyps show ?thesis by simp
  next
    case (eintr rs')
    with Cons.hyps have "rs = xfers ((called (sys out n w) w)\<lparr> xfers := rs' \<rparr>)" by simp
    then have "P out n ((called (sys out n w) w)\<lparr> xfers := rs' \<rparr>)" by (rule Cons.hyps(1))
    with eintr show ?thesis by (rule assms(3) [where rs = rs'])
  next
    case (fail e rs')
    then show ?thesis by (rule assms(4) [where e = e and rs = rs'])
  next
    case (avail bs rs')
    with Cons.hyps
    have "rs = xfers (store_list out (take n bs) ((called (sys out n w) w)\<lparr> xfers := rs' \<rparr>))"
      by simp
    then have "P (out + length (take n bs)) (n - length (take n bs))
        (store_list out (take n bs) ((called (sys out n w) w)\<lparr> xfers := rs' \<rparr>))"
      by (rule Cons.hyps(1))
    with avail show ?thesis by (rule assms(5) [where bs = bs and rs = rs'])
  qed
qed

lemma upt_split: "k \<le> n \<Longrightarrow> [a ..< a + k] @ [a + k ..< a + n] = [a ..< a + n]"
  using upt_add_eq_append [of a "a + k" "n - k"] by simp

lemma fill_loop_returned:
  "fill_loop sys out n w = Returned w' \<Longrightarrow> wlog w' = wlog w @ [out ..< out + n]"
proof (induction out n w rule: fill_loop_induct [where sys = sys])
  case (zero out w)
  then show ?case by (simp add: fill_loop_done)
next
  case (starved out n w)
  then show ?case by (simp add: fill_loop_starved)
next
  case (eintr out n w rs)
  then show ?case by (simp add: fill_loop_eintr)
next
  case (fail out n w e rs)
  then show ?case by (simp add: fill_loop_fail abort_def)
next
  case (avail out n w bs rs)
  from avail.prems avail.hyps have "wlog w' =
      (wlog w @ [out ..< out + length (take n bs)]) @
        [out + length (take n bs) ..< out + length (take n bs) + (n - length (take n bs))]"
    by (simp add: fill_loop_avail avail.IH del: length_take)
  moreover have "length (take n bs) \<le> n" by simp
  ultimately show ?case by (simp add: upt_split del: length_take)
qed

lemma fill_loop_frame:
  "fd (final (fill_loop sys out n w)) = fd w \<and>
   opens (final (fill_loop sys out n w)) = opens w \<and>
   rng_state (final (fill_loop sys out n w)) = rng_state w \<and>
   host (final (fill_loop sys out n w)) = host w"
proof (induction out n w rule: fill_loop_induct [where sys = sys])
  case (zero out w)
  then show ?case by (simp add: fill_loop_done)
next
  case (starved out n w)
  then show ?case by (simp add: fill_loop_starved)
next
  case (eintr out n w rs)
  then show ?case by (simp add: fill_loop_eintr)
next
  case (fail out n w e rs)
  then show ?case by (simp add: fill_loop_fail)
next
  case (avail out n w bs rs)
  then show ?case by (simp add: fill_loop_avail del: length_take)
qed

lemma fill_loop_calls:
  "\<exists>ext. calls (final (fill_loop sys out n w)) = calls w @ ext \<and>
     (\<forall>c\<in>set ext. c = Abort \<or> (\<exists>a k v. c = sys a k v \<and> fd v = fd w))"
proof (induction out n w rule: fill_loop_induct [where sys = sys])
  case (zero out w)
  then show ?case by (simp add: fill_loop_done)
next
  case (starved out n w)
  then show ?case by (auto simp: fill_loop_starved)
next
  case (eintr out n w rs)
  then obtain ext where "calls (final (fill_loop sys out n w)) = calls w @ sys out n w # ext"
    and "\<forall>c\<in>set ext. c = Abort \<or> (\<exists>a k v. c = sys a k v \<and> fd v = fd w)"
    by (auto simp: fill_loop_eintr)
  then show ?case by (intro exI [of _ "sys out n w # ext"]) auto
next
  case (fail out n w e rs)
  then show ?case by (auto simp: fill_loop_fail)
next
  case (avail out n w bs rs)
  then obtain ext where "calls (final (fill_loop sys out n w)) = calls w @ sys out n w # ext"
    and "\<forall>c\<in>set ext. c = Abort \<or> (\<exists>a k v. c = sys a k v \<and> fd v = fd w)"
    by (auto simp: fill_loop_avail simp del: length_take)
  then show ?case by (intro exI [of _ "sys out n w # ext"]) auto
qed


section \<open>Opening the entropy device\<close>

lemma open_loop_valid: "fd w \<noteq> - 1 \<Longrightarrow> open_loop w = Returned w"
  by (subst open_loop.simps) simp

lemma open_loop_starved:
  "fd w = - 1 \<Longrightarrow> opens w = [] \<Longrightarrow> open_loop w = Pending (called Open w)"
  by (subst open_loop.simps) (simp add: Let_def)

lemma open_loop_eintr:
  "fd w = - 1 \<Longrightarrow> opens w = OpenFail EINTR # rs \<Longrightarrow>
   open_loop w = open_loop ((called Open w)\<lparr> opens := rs, fd := - 1 \<rparr>)"
  by (subst open_loop.simps) (simp add: Let_def)

lemma open_loop_fail:
  "fd w = - 1 \<Longrightarrow> opens w = OpenFail e # rs \<Longrightarrow> e \<noteq> EINTR \<Longrightarrow>
   open_loop w = abort ((called Open w)\<lparr> opens := rs, fd := - 1 \<rparr>)"
  by (subst open_loop.simps) (simp add: Let_def)

lemma open_loop_opened:
  "fd w = - 1 \<Longrightarrow> opens w = Opened k # rs \<Longrightarrow>
   open_loop w = Returned ((called Open w)\<lparr> opens := rs, fd := int k \<rparr>)"
  by (subst open_loop.simps) (simp add: Let_def open_loop_valid)

lemma open_loop_returned:
  "open_loop w = Returned w' \<Longrightarrow> fd w' \<noteq> - 1"
proof (induction xs \<equiv> "opens w" arbitrary: w)
  case Nil
  then show ?case
    by (cases "fd w = - 1") (simp_all add: open_loop_valid open_loop_starved)
next
  case (Cons r rs)
  show ?case
  proof (cases "fd w = - 1")
    case False
    with Cons.prems show ?thesis by (simp add: open_loop_valid)
  next
    case True
    show ?thesis
    proof (cases r)
      case (Opened k)
      with True Cons.hyps(2) [symmetric] Cons.prems show ?thesis
        by (auto simp: open_loop_opened)
    next
      case (OpenFail e)
      show ?thesis
      proof (cases "e = EINTR")
        case False
        with True OpenFail Cons.hyps(2) [symmetric] Cons.prems show ?thesis
          by (simp add: open_loop_fail abort_def)
      next
        case e: True
        from True OpenFail e Cons.hyps(2) [symmetric] Cons.prems
        have "open_loop ((called Open w)\<lparr> opens := rs, fd := - 1 \<rparr>) = Returned w'"
          by (simp add: open_loop_eintr)
        moreover have "rs = opens ((called Open w)\<lparr> opens := rs, fd := - 1 \<rparr>)" by simp
        ultimately show ?thesis using Cons.hyps(1) by blast
      qed
    qed
  qed
qed

lemma open_loop_frame:
  "mem (final (open_loop w)) = mem w \<and> wlog (final (open_loop w)) = wlog w \<and>
   xfers (final (open_loop w)) = xfers w \<and> rng_state (final (open_loop w)) = rng_state w"
proof (induction xs \<equiv> "opens w" arbitrary: w)
  case Nil
  then show ?case
    by (cases "fd w = - 1") (simp_all add: open_loop_valid open_loop_starved)
next
  case (Cons r rs)
  show ?case
  proof (cases "fd w = - 1")
    case False
    then show ?thesis by (simp add: open_loop_valid)
  next
    case True
    show ?thesis
    proof (cases r)
      case (Opened k)
      with True Cons.hyps(2) [symmetric] show ?thesis
        by (simp add: open_loop_opened)
    next
      case (OpenFail e)
      show ?thesis
      proof (cases "e = EINTR")
        case False
        with True OpenFail Cons.hyps(2) [symmetric] show ?thesis
          by (simp add: open_loop_fail)
      next
        case e: True
        have "rs = opens ((called Open w)\<lparr> opens := rs, fd := - 1 \<rparr>)" by simp
        from Cons.hyps(1) [OF this] True OpenFail e Cons.hyps(2) [symmetric] show ?thesis
          by (simp add: open_loop_eintr)
      qed
    qed
  qed
qed

lemma randombytes_posix_valid:
  "fd w \<noteq> - 1 \<Longrightarrow> randombytes_posix out n w = fill_loop sys_read out n w"
  by (simp add: randombytes_posix_def open_loop_valid and_then_def)


section \<open>One iteration of the kernel loops\<close>

lemma calls_since_app: "calls w' = calls w @ ext \<Longrightarrow> calls_since w w' = ext"
  by (simp add: calls_since_def)

lemma fill_loop_first_call:
  "0 < n \<Longrightarrow> \<exists>ext. calls (final (fill_loop sys out n w)) = calls w @ sys out n w # ext"
proof (cases rule: fill_loop_cases [where n = n and w = w])
  case zero
  assume "0 < n"
  with zero show ?thesis by simp
next
  case starved
  then show ?thesis by (simp add: fill_loop_starved)
next
  case (eintr rs)
  obtain ext where "calls (final (fill_loop sys out n ((called (sys out n w) w)\<lparr> xfers := rs \<rparr>))) =
      calls ((called (sys out n w) w)\<lparr> xfers := rs \<rparr>) @ ext"
    using fill_loop_calls by blast
  with eintr show ?thesis by (simp add: fill_loop_eintr)
next
  case (fail e rs)
  then show ?thesis by (simp add: fill_loop_fail)
next
  case (avail bs rs)
  define w2 where "w2 = store_list out (take n bs) ((called (sys out n w) w)\<lparr> xfers := rs \<rparr>)"
  obtain ext where "calls (final (fill_loop sys (out + length (take n bs)) (n - length (take n bs)) w2)) =
      calls w2 @ ext"
    using fill_loop_calls by blast
  with avail show ?thesis by (simp add: fill_loop_avail w2_def del: length_take)
qed

lemma fill_loop_retry_trace:
  assumes "0 < n" and "xfers w = Fail EINTR # rs"
  shows "take 2 (calls_since w (final (fill_loop sys out n w))) =
      [sys out n w, sys out n ((called (sys out n w) w)\<lparr> xfers := rs \<rparr>)]"
proof -
  define w1 where "w1 = (called (sys out n w) w)\<lparr> xfers := rs \<rparr>"
  from fill_loop_first_call [OF assms(1), of sys out w1]
  obtain ext where "calls (final (fill_loop sys out n w1)) = calls w1 @ sys out n w1 # ext" ..
  then have "calls (final (fill_loop sys out n w)) = calls w @ (sys out n w # sys out n w1 # ext)"
    using assms by (simp add: fill_loop_eintr w1_def)
  then have "calls_since w (final (fill_loop sys out n w)) = sys out n w # sys out n w1 # ext"
    by (rule calls_since_app)
  then show ?thesis by (simp add: w1_def)
qed

lemma fill_loop_advance_trace:
  assumes "0 < n" and "xfers w = Avail bs # rs" and "length bs < n"
  shows "take 2 (calls_since w (final (fill_loop sys out n w))) =
      [sys out n w, sys (out + length bs) (n - length bs)
         (store_list out bs ((called (sys out n w) w)\<lparr> xfers := rs \<rparr>))]"
proof -
  define w2 where "w2 = store_list out bs ((called (sys out n w) w)\<lparr> xfers := rs \<rparr>)"
  from assms(3) have pos: "0 < n - length bs" by simp
  from fill_loop_first_call [OF pos, of sys "out + length bs" w2]
  obtain ext where "calls (final (fill_loop sys (out + length bs) (n - length bs) w2)) =
      calls w2 @ sys (out + length bs) (n - length bs) w2 # ext" ..
  then have "calls (final (fill_loop sys out n w)) =
      calls w @ (sys out n w # sys (out + length bs) (n - length bs) w2 # ext)"
    using assms by (simp add: fill_loop_avail w2_def)
  then have "calls_since w (final (fill_loop sys out n w)) =
      sys out n w # sys (out + length bs) (n - length bs) w2 # ext"
    by (rule calls_since_app)
  then show ?thesis by (simp add: w2_def)
qed

lemma fill_loop_complete:
  assumes "0 < n" and "xfers w = Avail bs # rs" and "n \<le> length bs"
  shows "fill_loop sys out n w =
      Returned (store_list out (take n bs) ((called (sys out n w) w)\<lparr> xfers := rs \<rparr>))"
  using assms by (simp add: fill_loop_avail fill_loop_done min_absorb2)


text \<open>
  C3. One iteration of the read loop, for the OS-syscall backend (\<open>getrandom\<close>) and for
  the device-file backend once its descriptor is open (\<open>read\<close>), with \<open>n > 0\<close> bytes
  still to deliver at \<open>out\<close>:
  \<^item> the kernel answers \<open>EINTR\<close>: the call proceeds as the same call for the same \<open>out\<close>
    and \<open>n\<close> on a world that differs only by the recorded call and the consumed answer,
    and the next call it issues has the same arguments;
  \<^item> the kernel answers any other error: the process is aborted right after that call;
  \<^item> the kernel delivers fewer bytes than asked: they are stored at \<open>out\<close>, and the
    call proceeds at \<open>out\<close> plus their count for \<open>n\<close> minus their count, which are the
    arguments of the next call it issues;
  \<^item> the kernel has at least \<open>n\<close> bytes: the first \<open>n\<close> are stored and the call returns.
\<close>

theorem kernel_loop_iteration:
  "(rb = randombytes_linux \<and> sc = Getrandom) \<or>
   (rb = randombytes_posix \<and> sc = Read (fd w) \<and> fd w \<noteq> - 1) \<Longrightarrow> 0 < n \<Longrightarrow>
   (xfers w = Fail EINTR # rs \<longrightarrow>
      rb out n w = rb out n ((called (sc out n) w)\<lparr> xfers := rs \<rparr>) \<and>
      take 2 (calls_since w (final (rb out n w))) = [sc out n, sc out n]) \<and>
   (xfers w = Fail e # rs \<and> e \<noteq> EINTR \<longrightarrow>
      rb out n w = Aborted (called Abort ((called (sc out n) w)\<lparr> xfers := rs \<rparr>))) \<and>
   (xfers w = Avail bs # rs \<and> length bs < n \<longrightarrow>
      rb out n w = rb (out + length bs) (n - length bs)
                     (store_list out bs ((called (sc out n) w)\<lparr> xfers := rs \<rparr>)) \<and>
      take 2 (calls_since w (final (rb out n w))) = [sc out n, sc (out + length bs) (n - length bs)]) \<and>
   (xfers w = Avail bs # rs \<and> n \<le> length bs \<longrightarrow>
      rb out n w = Returned (store_list out (take n bs) ((called (sc out n) w)\<lparr> xfers := rs \<rparr>)))"
proof -
  assume backend: "(rb = randombytes_linux \<and> sc = Getrandom) \<or>
      (rb = randombytes_posix \<and> sc = Read (fd w) \<and> fd w \<noteq> - 1)"
    and pos: "0 < n"
  then obtain sys where
    rb: "\<And>a k v. fd v = fd w \<Longrightarrow> rb a k v = fill_loop sys a k v"
    and sc: "\<And>a k v. fd v = fd w \<Longrightarrow> sys a k v = sc a k"
  proof (elim disjE conjE)
    assume "rb = randombytes_linux" "sc = Getrandom"
    then show ?thesis
      by (intro that [of sys_getrandom]) (simp_all add: randombytes_linux_def sys_getrandom_def)
  next
    assume "rb = randombytes_posix" "sc = Read (fd w)" "fd w \<noteq> - 1"
    then show ?thesis
      by (intro that [of sys_read]) (simp_all add: randombytes_posix_valid sys_read_def)
  qed
  have here: "rb out n w = fill_loop sys out n w" "sys out n w = sc out n"
    by (simp_all add: rb sc)
  have retry: "rb out n w = rb out n ((called (sc out n) w)\<lparr> xfers := rs \<rparr>) \<and>
      take 2 (calls_since w (final (rb out n w))) = [sc out n, sc out n]"
    if "xfers w = Fail EINTR # rs"
    using fill_loop_eintr [OF pos that, of sys out] fill_loop_retry_trace [OF pos that, of sys out]
    by (simp add: rb sc)
  have fatal: "rb out n w = Aborted (called Abort ((called (sc out n) w)\<lparr> xfers := rs \<rparr>))"
    if "xfers w = Fail e # rs" "e \<noteq> EINTR"
    using fill_loop_fail [OF pos that, of sys out] by (simp add: here abort_def)
  have advance: "rb out n w = rb (out + length bs) (n - length bs)
        (store_list out bs ((called (sc out n) w)\<lparr> xfers := rs \<rparr>)) \<and>
      take 2 (calls_since w (final (rb out n w))) = [sc out n, sc (out + length bs) (n - length bs)]"
    if "xfers w = Avail bs # rs" "length bs < n"
    using fill_loop_avail [OF pos that(1), of sys out] fill_loop_advance_trace [OF pos that, of sys out] that(2)
    by (simp add: rb sc)
  have complete: "rb out n w = Returned (store_list out (take n bs) ((called (sc out n) w)\<lparr> xfers := rs \<rparr>))"
    if "xfers w = Avail bs # rs" "n \<le> length bs"
    using fill_loop_complete [OF pos that, of sys out] by (simp add: here)
  from retry fatal advance complete show ?thesis by blast
qed


theorem kernel_loop_iteration_witness:
  "randombytes_linux 10 3 (scripted [Fail EINTR, Avail [7, 8]]) =
     randombytes_linux 10 3 ((called (Getrandom 10 3) (scripted [Fail EINTR, Avail [7, 8]]))\<lparr> xfers := [Avail [7, 8]] \<rparr>) \<and>
   take 2 (calls_since (scripted [Fail EINTR, Avail [7, 8]])
      (final (randombytes_linux 10 3 (scripted [Fail EINTR, Avail [7, 8]])))) = [Getrandom 10 3, Getrandom 10 3] \<and>
   randombytes_posix 10 3 (scripted [Fail EIO, Avail [7, 8]]) =
     Aborted (called Abort ((called (Read 3 10 3) (scripted [Fail EIO, Avail [7, 8]]))\<lparr> xfers := [Avail [7, 8]] \<rparr>)) \<and>
   take 2 (calls_since (scripted [Avail [7, 8], Avail [9]])
      (final (randombytes_posix 10 3 (scripted [Avail [7, 8], Avail [9]])))) = [Read 3 10 3, Read 3 12 1] \<and>
   randombytes_linux 10 3 (scripted [Avail [7, 8, 9, 6]]) =
     Returned (store_list 10 [7, 8, 9] ((called (Getrandom 10 3) (scripted [Avail [7, 8, 9, 6]]))\<lparr> xfers := [] \<rparr>))"
proof -
  have linux: "(randombytes_linux = randombytes_linux \<and> Getrandom = Getrandom) \<or>
      (randombytes_linux = randombytes_posix \<and> Getrandom = Read (fd v) \<and> fd v \<noteq> - 1)" for v
    by simp
  have posix: "(randombytes_posix = randombytes_linux \<and> Read 3 = Getrandom) \<or>
      (randombytes_posix = randombytes_posix \<and> Read 3 = Read (fd (scripted xs)) \<and> fd (scripted xs) \<noteq> - 1)" for xs
    by (simp add: scripted_def)
  have pos: "0 < (3::nat)" by simp
  note retry = kernel_loop_iteration [where rb = randombytes_linux and sc = Getrandom and n = 3
      and w = "scripted [Fail EINTR, Avail [7, 8]]" and rs = "[Avail [7, 8]]" and out = 10, OF linux pos]
  note fatal = kernel_loop_iteration [where rb = randombytes_posix and sc = "Read 3" and n = 3
      and w = "scripted [Fail EIO, Avail [7, 8]]" and rs = "[Avail [7, 8]]" and out = 10 and e = EIO,
      OF posix pos]
  note short = kernel_loop_iteration [where rb = randombytes_posix and sc = "Read 3" and n = 3
      and w = "scripted [Avail [7, 8], Avail [9]]" and rs = "[Avail [9]]" and out = 10 and bs = "[7, 8]",
      OF posix pos]
  note whole = kernel_loop_iteration [where rb = randombytes_linux and sc = Getrandom and n = 3
      and w = "scripted [Avail [7, 8, 9, 6]]" and rs = "[]" and out = 10 and bs = "[7, 8, 9, 6]",
      OF linux pos]
  have a: "xfers (scripted xs) = xs" for xs by (simp add: scripted_def)
  have 1: "randombytes_linux 10 3 (scripted [Fail EINTR, Avail [7, 8]]) =
     randombytes_linux 10 3 ((called (Getrandom 10 3) (scripted [Fail EINTR, Avail [7, 8]]))\<lparr> xfers := [Avail [7, 8]] \<rparr>) \<and>
     take 2 (calls_since (scripted [Fail EINTR, Avail [7, 8]])
      (final (randombytes_linux 10 3 (scripted [Fail EINTR, Avail [7, 8]])))) = [Getrandom 10 3, Getrandom 10 3]"
    by (rule retry [THEN conjunct1, rule_format]) (simp add: a)
  have 3: "randombytes_posix 10 3 (scripted [Fail EIO, Avail [7, 8]]) =
     Aborted (called Abort ((called (Read 3 10 3) (scripted [Fail EIO, Avail [7, 8]]))\<lparr> xfers := [Avail [7, 8]] \<rparr>))"
    by (rule fatal [THEN conjunct2, THEN conjunct1, rule_format]) (simp add: a)
  have adv: "randombytes_posix 10 3 (scripted [Avail [7, 8], Avail [9]]) =
      randombytes_posix (10 + length [7 :: u8, 8]) (3 - length [7 :: u8, 8])
        (store_list 10 [7, 8] ((called (Read 3 10 3) (scripted [Avail [7, 8], Avail [9]]))\<lparr> xfers := [Avail [9]] \<rparr>)) \<and>
     take 2 (calls_since (scripted [Avail [7, 8], Avail [9]])
      (final (randombytes_posix 10 3 (scripted [Avail [7, 8], Avail [9]])))) =
       [Read 3 10 3, Read 3 (10 + length [7 :: u8, 8]) (3 - length [7 :: u8, 8])]"
    by (rule short [THEN conjunct2, THEN conjunct2, THEN conjunct1, rule_format]) (simp add: a)
  from adv [THEN conjunct2] have 4: "take 2 (calls_since (scripted [Avail [7, 8], Avail [9]])
      (final (randombytes_posix 10 3 (scripted [Avail [7, 8], Avail [9]])))) = [Read 3 10 3, Read 3 12 1]"
    by simp
  have "randombytes_linux 10 3 (scripted [Avail [7, 8, 9, 6]]) =
     Returned (store_list 10 (take 3 [7, 8, 9, 6]) ((called (Getrandom 10 3) (scripted [Avail [7, 8, 9, 6]]))\<lparr> xfers := [] \<rparr>))"
    by (rule whole [THEN conjunct2, THEN conjunct2, THEN conjunct2, rule_format]) (simp add: a)
  then have 5: "randombytes_linux 10 3 (scripted [Avail [7, 8, 9, 6]]) =
     Returned (store_list 10 [7, 8, 9] ((called (Getrandom 10 3) (scripted [Avail [7, 8, 9, 6]]))\<lparr> xfers := [] \<rparr>))"
    by simp
  from 1 3 4 5 show ?thesis by blast
qed


section \<open>The device descriptor across calls\<close>

lemma posix_valid_frame:
  assumes "fd w \<noteq> - 1"
  shows "fd (final (randombytes_posix out n w)) = fd w"
    and "opens (final (randombytes_posix out n w)) = opens w"
    and "\<exists>ext. calls (final (randombytes_posix out n w)) = calls w @ ext \<and>
           (\<forall>c\<in>set ext. c = Abort \<or> (\<exists>a k. c = Read (fd w) a k))"
proof -
  show "fd (final (randombytes_posix out n w)) = fd w"
    and "opens (final (randombytes_posix out n w)) = opens w"
    using assms by (simp_all add: randombytes_posix_valid fill_loop_frame)
  from fill_loop_calls [of sys_read out n w]
  obtain ext where c: "calls (final (fill_loop sys_read out n w)) = calls w @ ext"
    and e: "\<forall>c\<in>set ext. c = Abort \<or> (\<exists>a k v. c = sys_read a k v \<and> fd v = fd w)"
    by blast
  from e have "\<forall>c\<in>set ext. c = Abort \<or> (\<exists>a k. c = Read (fd w) a k)"
    by (auto simp: sys_read_def)
  with c assms show "\<exists>ext. calls (final (randombytes_posix out n w)) = calls w @ ext \<and>
           (\<forall>c\<in>set ext. c = Abort \<or> (\<exists>a k. c = Read (fd w) a k))"
    by (auto simp: randombytes_posix_valid)
qed

lemma final_and_then:
  "final (and_then r k) = (case r of Returned w \<Rightarrow> final (k w) | Aborted w \<Rightarrow> w | Pending w \<Rightarrow> w)"
  by (simp add: and_then_def split: outcome.splits)

lemma posix_session_valid:
  "fd w \<noteq> - 1 \<Longrightarrow>
   fd (final (posix_session reqs w)) = fd w \<and>
   opens (final (posix_session reqs w)) = opens w \<and>
   (\<exists>ext. calls (final (posix_session reqs w)) = calls w @ ext \<and>
      (\<forall>c\<in>set ext. c = Abort \<or> (\<exists>a k. c = Read (fd w) a k)))"
proof (induction reqs arbitrary: w)
  case Nil
  then show ?case by simp
next
  case (Cons req reqs)
  obtain out n where req: "req = (out, n)" by (cases req)
  from posix_valid_frame [OF Cons.prems, of out n]
  obtain ext where one: "fd (final (randombytes_posix out n w)) = fd w"
      "opens (final (randombytes_posix out n w)) = opens w"
      "calls (final (randombytes_posix out n w)) = calls w @ ext"
      "\<forall>c\<in>set ext. c = Abort \<or> (\<exists>a k. c = Read (fd w) a k)"
    by blast
  show ?case
  proof (cases "randombytes_posix out n w")
    case (Returned w1)
    with one have w1: "fd w1 = fd w" "opens w1 = opens w" "calls w1 = calls w @ ext" by simp_all
    with Cons.prems have "fd w1 \<noteq> - 1" by simp
    from Cons.IH [OF this] obtain ext' where
      "fd (final (posix_session reqs w1)) = fd w1"
      "opens (final (posix_session reqs w1)) = opens w1"
      "calls (final (posix_session reqs w1)) = calls w1 @ ext'"
      "\<forall>c\<in>set ext'. c = Abort \<or> (\<exists>a k. c = Read (fd w1) a k)"
      by blast
    with w1 one(4) Returned req show ?thesis
      by (intro conjI exI [of _ "ext @ ext'"]) (auto simp: final_and_then)
  next
    case (Aborted w1)
    with one req show ?thesis by (auto simp: final_and_then)
  next
    case (Pending w1)
    with one req show ?thesis by (auto simp: final_and_then)
  qed
qed

lemma randombytes_posix_returned:
  assumes "randombytes_posix out n w = Returned w'"
  shows "fd w' \<noteq> - 1"
proof (cases "open_loop w")
  case (Returned w1)
  then have "fd w1 \<noteq> - 1" by (rule open_loop_returned)
  moreover from assms Returned have "fill_loop sys_read out n w1 = Returned w'"
    by (simp add: randombytes_posix_def and_then_def)
  then have "fd w' = fd w1" using fill_loop_frame [of sys_read out n w1] by simp
  ultimately show ?thesis by simp
next
  case (Aborted w1)
  with assms show ?thesis by (simp add: randombytes_posix_def and_then_def)
next
  case (Pending w1)
  with assms show ?thesis by (simp add: randombytes_posix_def and_then_def)
qed

lemma open_loop_used:
  "\<exists>used. opens w = used @ opens (final (open_loop w)) \<and> length (filter succeeded used) \<le> 1"
proof (induction xs \<equiv> "opens w" arbitrary: w)
  case Nil
  then show ?case
    by (cases "fd w = - 1") (simp_all add: open_loop_valid open_loop_starved)
next
  case (Cons r rs)
  show ?case
  proof (cases "fd w = - 1")
    case False
    then show ?thesis by (simp add: open_loop_valid)
  next
    case True
    show ?thesis
    proof (cases r)
      case (Opened k)
      with True Cons.hyps(2) [symmetric] show ?thesis
        by (intro exI [of _ "[Opened k]"]) (simp add: open_loop_opened)
    next
      case (OpenFail e)
      show ?thesis
      proof (cases "e = EINTR")
        case False
        with True OpenFail Cons.hyps(2) [symmetric] show ?thesis
          by (intro exI [of _ "[OpenFail e]"]) (simp add: open_loop_fail)
      next
        case e: True
        have "rs = opens ((called Open w)\<lparr> opens := rs, fd := - 1 \<rparr>)" by simp
        from Cons.hyps(1) [OF this] obtain used where
          "rs = used @ opens (final (open_loop ((called Open w)\<lparr> opens := rs, fd := - 1 \<rparr>)))"
          "length (filter succeeded used) \<le> 1"
          by auto
        with True OpenFail e Cons.hyps(2) [symmetric] show ?thesis
          by (intro exI [of _ "OpenFail EINTR # used"]) (simp add: open_loop_eintr)
      qed
    qed
  qed
qed

lemma randombytes_posix_used:
  "\<exists>used. opens w = used @ opens (final (randombytes_posix out n w)) \<and>
     length (filter succeeded used) \<le> 1"
proof (cases "open_loop w")
  case (Returned w1)
  then have "final (randombytes_posix out n w) = final (fill_loop sys_read out n w1)"
    by (simp add: randombytes_posix_def and_then_def)
  then have "opens (final (randombytes_posix out n w)) = opens (final (open_loop w))"
    using Returned by (simp add: fill_loop_frame)
  with open_loop_used [of w] show ?thesis by simp
next
  case (Aborted w1)
  then have "final (randombytes_posix out n w) = final (open_loop w)"
    by (simp add: randombytes_posix_def and_then_def)
  with open_loop_used [of w] show ?thesis by simp
next
  case (Pending w1)
  then have "final (randombytes_posix out n w) = final (open_loop w)"
    by (simp add: randombytes_posix_def and_then_def)
  with open_loop_used [of w] show ?thesis by simp
qed

lemma posix_session_used:
  "\<exists>used. opens w = used @ opens (final (posix_session reqs w)) \<and>
     length (filter succeeded used) \<le> 1"
proof (cases reqs)
  case Nil
  then show ?thesis by simp
next
  case (Cons req rest)
  obtain out n where req: "req = (out, n)" by (cases req)
  show ?thesis
  proof (cases "randombytes_posix out n w")
    case (Returned w1)
    then have "fd w1 \<noteq> - 1" by (rule randombytes_posix_returned)
    then have "opens (final (posix_session rest w1)) = opens w1"
      using posix_session_valid by blast
    with Returned Cons req
    have "opens (final (posix_session reqs w)) = opens (final (randombytes_posix out n w))"
      by (simp add: final_and_then)
    with randombytes_posix_used [of w out n] show ?thesis by simp
  next
    case (Aborted w1)
    with Cons req
    have "opens (final (posix_session reqs w)) = opens (final (randombytes_posix out n w))"
      by (simp add: final_and_then)
    with randombytes_posix_used [of w out n] show ?thesis by simp
  next
    case (Pending w1)
    with Cons req
    have "opens (final (posix_session reqs w)) = opens (final (randombytes_posix out n w))"
      by (simp add: final_and_then)
    with randombytes_posix_used [of w out n] show ?thesis by simp
  qed
qed


text \<open>
  C7. The device-file backend and its descriptor, over a process that makes any sequence
  of calls:
  \<^item> of the answers to \<open>open\<close> the process consumes, at most one is a descriptor;
  \<^item> once the descriptor is valid, every later call leaves it as it is, consumes no
    answer to \<open>open\<close>, and issues nothing but \<open>read\<close> on that descriptor (and \<open>abort\<close>):
    it is not opened again and not closed;
  \<^item> a call that returns leaves a valid descriptor;
  \<^item> a call that finds no descriptor opens the device: \<open>EINTR\<close> makes it try again, any
    other failure aborts the process, and a descriptor \<open>k\<close> makes it go on as a call that
    found \<open>k\<close> already open.
\<close>

theorem device_handle_opened_once:
  "(\<exists>used. opens w = used @ opens (final (posix_session reqs w)) \<and>
      length (filter succeeded used) \<le> 1) \<and>
   (fd w \<noteq> - 1 \<longrightarrow>
      fd (final (posix_session reqs w)) = fd w \<and>
      opens (final (posix_session reqs w)) = opens w \<and>
      (\<forall>c\<in>set (calls_since w (final (posix_session reqs w))).
         c = Abort \<or> (\<exists>a k. c = Read (fd w) a k))) \<and>
   (randombytes_posix out n w = Returned w' \<longrightarrow> fd w' \<noteq> - 1) \<and>
   (fd w = - 1 \<and> opens w = OpenFail EINTR # rs \<longrightarrow>
      randombytes_posix out n w =
        randombytes_posix out n ((called Open w)\<lparr> opens := rs, fd := - 1 \<rparr>)) \<and>
   (fd w = - 1 \<and> opens w = OpenFail e # rs \<and> e \<noteq> EINTR \<longrightarrow>
      randombytes_posix out n w =
        Aborted (called Abort ((called Open w)\<lparr> opens := rs, fd := - 1 \<rparr>))) \<and>
   (fd w = - 1 \<and> opens w = Opened k # rs \<longrightarrow>
      randombytes_posix out n w =
        randombytes_posix out n ((called Open w)\<lparr> opens := rs, fd := int k \<rparr>))"
proof -
  have reuse: "fd (final (posix_session reqs w)) = fd w \<and>
      opens (final (posix_session reqs w)) = opens w \<and>
      (\<forall>c\<in>set (calls_since w (final (posix_session reqs w))).
         c = Abort \<or> (\<exists>a k. c = Read (fd w) a k))"
    if "fd w \<noteq> - 1"
  proof -
    from posix_session_valid [OF that, of reqs] obtain ext where
      "fd (final (posix_session reqs w)) = fd w"
      "opens (final (posix_session reqs w)) = opens w"
      "calls (final (posix_session reqs w)) = calls w @ ext"
      "\<forall>c\<in>set ext. c = Abort \<or> (\<exists>a k. c = Read (fd w) a k)"
      by blast
    then show ?thesis by (simp add: calls_since_def)
  qed
  have retry: "randombytes_posix out n w =
      randombytes_posix out n ((called Open w)\<lparr> opens := rs, fd := - 1 \<rparr>)"
    if "fd w = - 1" "opens w = OpenFail EINTR # rs"
    using that by (simp add: randombytes_posix_def open_loop_eintr)
  have fatal: "randombytes_posix out n w =
      Aborted (called Abort ((called Open w)\<lparr> opens := rs, fd := - 1 \<rparr>))"
    if "fd w = - 1" "opens w = OpenFail e # rs" "e \<noteq> EINTR"
    using that by (simp add: randombytes_posix_def open_loop_fail abort_def and_then_def)
  have opened: "randombytes_posix out n w =
      randombytes_posix out n ((called Open w)\<lparr> opens := rs, fd := int k \<rparr>)"
    if "fd w = - 1" "opens w = Opened k # rs"
    using that by (simp add: randombytes_posix_def open_loop_opened open_loop_valid and_then_def)
  from posix_session_used [of w reqs] reuse randombytes_posix_returned [of out n w w']
    retry fatal opened
  show ?thesis by blast
qed

theorem device_handle_opened_once_witness:
  "fd (final (posix_session [(10, 2), (20, 1)] (scripted [Avail [1, 2], Fail EINTR, Avail [3]]))) = 3 \<and>
   randombytes_posix 10 2 (unopened [OpenFail EINTR, Opened 3] [Avail [1, 2]]) =
     randombytes_posix 10 2
       ((called Open (unopened [OpenFail EINTR, Opened 3] [Avail [1, 2]]))\<lparr> opens := [Opened 3], fd := - 1 \<rparr>) \<and>
   randombytes_posix 10 2 (unopened [OpenFail ENOENT] [Avail [1, 2]]) =
     Aborted (called Abort ((called Open (unopened [OpenFail ENOENT] [Avail [1, 2]]))\<lparr> opens := [], fd := - 1 \<rparr>)) \<and>
   randombytes_posix 10 2 (unopened [Opened 3] [Avail [1, 2]]) =
     randombytes_posix 10 2 ((called Open (unopened [Opened 3] [Avail [1, 2]]))\<lparr> opens := [], fd := int 3 \<rparr>) \<and>
   fd (store_list 10 [1, 2] ((called (Read 3 10 2) (scripted [Avail [1, 2]]))\<lparr> xfers := [] \<rparr>)) \<noteq> - 1"
proof -
  have valid: "fd (scripted xs) \<noteq> - 1" for xs by (simp add: scripted_def)
  have closed: "fd (unopened os xs) = - 1" "opens (unopened os xs) = os" for os xs
    by (simp_all add: unopened_def process_start_def)
  have 1: "fd (final (posix_session [(10, 2), (20, 1)] (scripted [Avail [1, 2], Fail EINTR, Avail [3]]))) =
      fd (scripted [Avail [1, 2], Fail EINTR, Avail [3]])"
    using device_handle_opened_once [where w = "scripted [Avail [1, 2], Fail EINTR, Avail [3]]"
        and reqs = "[(10, 2), (20, 1)]", THEN conjunct2, THEN conjunct1] valid
    by blast
  have 2: "randombytes_posix 10 2 (unopened [OpenFail EINTR, Opened 3] [Avail [1, 2]]) =
     randombytes_posix 10 2
       ((called Open (unopened [OpenFail EINTR, Opened 3] [Avail [1, 2]]))\<lparr> opens := [Opened 3], fd := - 1 \<rparr>)"
    by (rule device_handle_opened_once [THEN conjunct2, THEN conjunct2, THEN conjunct2,
          THEN conjunct1, rule_format]) (simp add: closed)
  have 3: "randombytes_posix 10 2 (unopened [OpenFail ENOENT] [Avail [1, 2]]) =
     Aborted (called Abort ((called Open (unopened [OpenFail ENOENT] [Avail [1, 2]]))\<lparr> opens := [], fd := - 1 \<rparr>))"
    by (rule device_handle_opened_once [where e = ENOENT, THEN conjunct2, THEN conjunct2,
          THEN conjunct2, THEN conjunct2, THEN conjunct1, rule_format]) (simp add: closed)
  have 4: "randombytes_posix 10 2 (unopened [Opened 3] [Avail [1, 2]]) =
     randombytes_posix 10 2 ((called Open (unopened [Opened 3] [Avail [1, 2]]))\<lparr> opens := [], fd := int 3 \<rparr>)"
    by (rule device_handle_opened_once [THEN conjunct2, THEN conjunct2, THEN conjunct2,
          THEN conjunct2, THEN conjunct2, rule_format]) (simp add: closed)
  have "randombytes_posix 10 2 (scripted [Avail [1, 2]]) =
      Returned (store_list 10 [1, 2] ((called (Read 3 10 2) (scripted [Avail [1, 2]]))\<lparr> xfers := [] \<rparr>))"
    using fill_loop_complete [of 2 "scripted [Avail [1, 2]]" "[1, 2]" "[]" sys_read 10]
    by (simp add: randombytes_posix_valid valid) (simp add: scripted_def sys_read_def)
  then have 5: "fd (store_list 10 [1, 2] ((called (Read 3 10 2) (scripted [Avail [1, 2]]))\<lparr> xfers := [] \<rparr>)) \<noteq> - 1"
    by (rule device_handle_opened_once [THEN conjunct2, THEN conjunct2, THEN conjunct1, rule_format])
  from 1 2 3 4 5 show ?thesis by (simp add: scripted_def)
qed


section \<open>Chunks of the platform crypto service\<close>

lemma win_loop_done: "win_loop out 0 w = Returned w"
  by (subst win_loop.simps) simp

lemma win_loop_starved:
  "0 < n \<Longrightarrow> gens w = [] \<Longrightarrow> win_loop out n w = Pending (called (CryptGenRandom (chunk n) out) w)"
  by (subst win_loop.simps) (simp add: Let_def chunk_def)

lemma win_loop_false:
  "0 < n \<Longrightarrow> gens w = GenFalse # rs \<Longrightarrow>
   win_loop out n w = abort ((called (CryptGenRandom (chunk n) out) w)\<lparr> gens := rs \<rparr>)"
  by (subst win_loop.simps) (simp add: Let_def chunk_def)

lemma win_loop_true:
  "0 < n \<Longrightarrow> gens w = GenTrue g # rs \<Longrightarrow>
   win_loop out n w = win_loop (out + chunk n) (n - chunk n)
     (store_list out (map g [0 ..< chunk n]) ((called (CryptGenRandom (chunk n) out) w)\<lparr> gens := rs \<rparr>))"
  by (subst win_loop.simps) (simp add: Let_def chunk_def)

lemma chunk_bounds: "chunk n \<le> n" "chunk n \<le> 1048576" "0 < n \<Longrightarrow> 0 < chunk n"
  by (simp_all add: chunk_def)

lemma win_loop_returned:
  "win_loop out n w = Returned w' \<Longrightarrow>
   wlog w' = wlog w @ [out ..< out + n] \<and>
   calls w' = calls w @ chunk_calls ((n + 1048575) div 1048576) out n \<and>
   acquires w' = acquires w \<and> releases w' = releases w"
proof (induction n arbitrary: out w rule: less_induct)
  case (less n)
  show ?case
  proof (cases "n = 0")
    case True
    with less.prems show ?thesis by (simp add: win_loop_done)
  next
    case False
    then have pos: "0 < n" by simp
    show ?thesis
    proof (cases "gens w")
      case Nil
      with pos less.prems show ?thesis by (simp add: win_loop_starved)
    next
      case (Cons r rs)
      show ?thesis
      proof (cases r)
        case GenFalse
        with pos Cons less.prems show ?thesis by (simp add: win_loop_false abort_def)
      next
        case (GenTrue g)
        define w2 where "w2 = store_list out (map g [0 ..< chunk n])
            ((called (CryptGenRandom (chunk n) out) w)\<lparr> gens := rs \<rparr>)"
        from pos Cons GenTrue less.prems
        have run: "win_loop (out + chunk n) (n - chunk n) w2 = Returned w'"
          by (simp add: win_loop_true w2_def)
        have smaller: "n - chunk n < n" using pos chunk_bounds(3) [OF pos] by simp
        from less.IH [OF smaller run]
        have IH: "wlog w' = wlog w2 @ [out + chunk n ..< out + chunk n + (n - chunk n)]"
          "calls w' = calls w2 @ chunk_calls ((n - chunk n + 1048575) div 1048576) (out + chunk n) (n - chunk n)"
          "acquires w' = acquires w2" "releases w' = releases w2"
          by simp_all
        have count: "(n + 1048575) div 1048576 = Suc ((n - chunk n + 1048575) div 1048576)"
          using pos by (auto simp: chunk_def)
        have "wlog w' = wlog w @ [out ..< out + chunk n] @ [out + chunk n ..< out + n]"
          using IH(1) chunk_bounds(1) [of n] by (simp add: w2_def)
        then have "wlog w' = wlog w @ [out ..< out + n]"
          using chunk_bounds(1) [of n] by (simp only: upt_split)
        moreover have "calls w' = calls w @ chunk_calls ((n + 1048575) div 1048576) out n"
          using IH(2) by (simp add: count w2_def)
        ultimately show ?thesis using IH(3,4) by (simp add: w2_def)
      qed
    qed
  qed
qed


lemma chunk_calls_length [simp]: "length (chunk_calls k out n) = k"
  by (induction k arbitrary: out n) simp_all

lemma chunk_calls_bound:
  "c \<in> set (chunk_calls k out n) \<Longrightarrow> \<exists>len a. c = CryptGenRandom len a \<and> len \<le> 1048576"
  by (induction k arbitrary: out n) (auto simp: chunk_bounds)

lemma randombytes_win32_returned:
  assumes "randombytes_win32 out n w = Returned w'"
  shows "wlog w' = wlog w @ [out ..< out + n]"
    and "calls w' = calls w @ CryptAcquireContext #
           chunk_calls ((n + 1048575) div 1048576) out n @ [CryptReleaseContext]"
proof -
  define w1 where "w1 = called CryptAcquireContext w"
  from assms obtain rest where acq: "acquires w = True # rest"
    by (cases "acquires w")
      (auto simp: randombytes_win32_def Let_def abort_def split: if_splits)
  define w2 where "w2 = w1\<lparr> acquires := rest \<rparr>"
  from assms acq obtain w3 where loop: "win_loop out n w2 = Returned w3"
    by (cases "win_loop out n w2")
      (auto simp: randombytes_win32_def Let_def and_then_def w1_def w2_def)
  define w4 where "w4 = called CryptReleaseContext w3"
  from assms acq loop obtain rest' where rel: "releases w3 = True # rest'"
    and fin: "w' = w4\<lparr> releases := rest' \<rparr>"
    by (cases "releases w3")
      (auto simp: randombytes_win32_def Let_def and_then_def abort_def w1_def w2_def w4_def
            split: if_splits)
  from win_loop_returned [OF loop]
  have "wlog w3 = wlog w2 @ [out ..< out + n]"
    and "calls w3 = calls w2 @ chunk_calls ((n + 1048575) div 1048576) out n"
    by simp_all
  then show "wlog w' = wlog w @ [out ..< out + n]"
    and "calls w' = calls w @ CryptAcquireContext #
           chunk_calls ((n + 1048575) div 1048576) out n @ [CryptReleaseContext]"
    by (simp_all add: fin w4_def w2_def w1_def)
qed

lemma two_chunks:
  "chunk_calls ((1048577 + 1048575) div 1048576) out 1048577 =
     [CryptGenRandom 1048576 out, CryptGenRandom 1 (out + 1048576)]"
proof -
  have "(1048577 + 1048575) div 1048576 = Suc (Suc (0::nat))" by simp
  then show ?thesis by (simp only: chunk_calls.simps) (simp add: chunk_def)
qed

lemma randombytes_win32_two_chunks:
  assumes "acquires w = True # as" and "gens w = GenTrue g1 # GenTrue g2 # gs"
    and "releases w = True # rs"
  shows "\<exists>w'. randombytes_win32 out 1048577 w = Returned w'"
proof -
  define w2 where "w2 = (called CryptAcquireContext w)\<lparr> acquires := as \<rparr>"
  define w3 where "w3 = store_list out (map g1 [0 ..< chunk 1048577])
      ((called (CryptGenRandom (chunk 1048577) out) w2)\<lparr> gens := GenTrue g2 # gs \<rparr>)"
  define w4 where "w4 = store_list (out + chunk 1048577) (map g2 [0 ..< chunk (1048577 - chunk 1048577)])
      ((called (CryptGenRandom (chunk (1048577 - chunk 1048577)) (out + chunk 1048577)) w3)\<lparr> gens := gs \<rparr>)"
  have c1: "chunk 1048577 = 1048576" and c2: "chunk (1048577 - 1048576) = 1"
    by (simp_all add: chunk_def)
  have g2: "gens w2 = GenTrue g1 # GenTrue g2 # gs" by (simp add: w2_def assms)
  have "win_loop out 1048577 w2 = win_loop (out + chunk 1048577) (1048577 - chunk 1048577) w3"
    by (subst win_loop_true [OF _ g2]) (simp_all add: w3_def)
  also have "\<dots> = win_loop (out + chunk 1048577 + chunk (1048577 - chunk 1048577))
      (1048577 - chunk 1048577 - chunk (1048577 - chunk 1048577)) w4"
    by (subst win_loop_true [where g = g2 and rs = gs]) (simp_all add: w3_def w4_def c1)
  also have "\<dots> = Returned w4"
    by (simp add: chunk_def win_loop_done)
  finally have loop: "win_loop out 1048577 w2 = Returned w4" .
  have "releases w4 = True # rs"
    by (simp add: w4_def w3_def w2_def assms)
  with loop assms(1) show ?thesis
    by (simp add: randombytes_win32_def Let_def and_then_def w2_def)
qed


text \<open>
  C4. The platform crypto service backend:
  \<^item> a call that returns has acquired the context, made \<open>(n + 1048575) div 1048576\<close>
    generate calls, each for at most 1048576 bytes, and released the context;
  \<^item> when the service grants the context, answers two generate calls and releases, a
    request for 1048577 bytes returns after exactly two generate calls, the first for
    1048576 bytes at \<open>out\<close> and the second for 1 byte at \<open>out + 1048576\<close>;
  \<^item> in any iteration of the loop, a generate call that fails is followed by \<open>abort\<close>
    and by nothing else; for the first chunk the whole call is then acquire, one
    generate call, \<open>abort\<close>.
\<close>

theorem service_chunking:
  "(randombytes_win32 out n w = Returned w' \<longrightarrow>
      (\<exists>cs. calls_since w w' = CryptAcquireContext # cs @ [CryptReleaseContext] \<and>
         length cs = (n + 1048575) div 1048576 \<and>
         (\<forall>c\<in>set cs. \<exists>len a. c = CryptGenRandom len a \<and> len \<le> 1048576))) \<and>
   (acquires w = True # as \<and> gens w = GenTrue g1 # GenTrue g2 # gs \<and> releases w = True # rs \<longrightarrow>
      (\<exists>v. randombytes_win32 out 1048577 w = Returned v \<and>
         calls_since w v = [CryptAcquireContext, CryptGenRandom 1048576 out,
                            CryptGenRandom 1 (out + 1048576), CryptReleaseContext])) \<and>
   (0 < n \<and> gens w = GenFalse # gs \<longrightarrow>
      win_loop out n w =
        Aborted (called Abort ((called (CryptGenRandom (min n 1048576) out) w)\<lparr> gens := gs \<rparr>))) \<and>
   (0 < n \<and> acquires w = True # as \<and> gens w = GenFalse # gs \<longrightarrow>
      (\<exists>v. randombytes_win32 out n w = Aborted v \<and>
         calls_since w v = [CryptAcquireContext, CryptGenRandom (min n 1048576) out, Abort]))"
proof -
  have min_chunk: "chunk n = min n 1048576" by (simp add: chunk_def)
  have chunks: "\<exists>cs. calls_since w w' = CryptAcquireContext # cs @ [CryptReleaseContext] \<and>
      length cs = (n + 1048575) div 1048576 \<and>
      (\<forall>c\<in>set cs. \<exists>len a. c = CryptGenRandom len a \<and> len \<le> 1048576)"
    if "randombytes_win32 out n w = Returned w'"
  proof -
    from randombytes_win32_returned(2) [OF that]
    have "calls_since w w' = CryptAcquireContext #
        chunk_calls ((n + 1048575) div 1048576) out n @ [CryptReleaseContext]"
      by (rule calls_since_app)
    then show ?thesis using chunk_calls_bound by (intro exI conjI) (assumption, simp, blast)
  qed
  have two: "\<exists>v. randombytes_win32 out 1048577 w = Returned v \<and>
      calls_since w v = [CryptAcquireContext, CryptGenRandom 1048576 out,
                         CryptGenRandom 1 (out + 1048576), CryptReleaseContext]"
    if "acquires w = True # as" "gens w = GenTrue g1 # GenTrue g2 # gs" "releases w = True # rs"
  proof -
    from randombytes_win32_two_chunks [OF that, of out]
    obtain v where v: "randombytes_win32 out 1048577 w = Returned v" ..
    from randombytes_win32_returned(2) [OF v]
    have "calls v = calls w @ [CryptAcquireContext, CryptGenRandom 1048576 out,
        CryptGenRandom 1 (out + 1048576), CryptReleaseContext]"
      by (simp only: two_chunks append_Cons append_Nil)
    then have "calls_since w v = [CryptAcquireContext, CryptGenRandom 1048576 out,
        CryptGenRandom 1 (out + 1048576), CryptReleaseContext]"
      by (rule calls_since_app)
    with v show ?thesis by blast
  qed
  have failed: "win_loop out n w =
      Aborted (called Abort ((called (CryptGenRandom (min n 1048576) out) w)\<lparr> gens := gs \<rparr>))"
    if "0 < n" "gens w = GenFalse # gs"
    using that by (simp add: win_loop_false abort_def min_chunk)
  have first: "\<exists>v. randombytes_win32 out n w = Aborted v \<and>
      calls_since w v = [CryptAcquireContext, CryptGenRandom (min n 1048576) out, Abort]"
    if "0 < n" "acquires w = True # as" "gens w = GenFalse # gs"
    using that
    by (simp add: randombytes_win32_def Let_def and_then_def win_loop_false abort_def min_chunk
        calls_since_def)
  from chunks two failed first show ?thesis by blast
qed

theorem service_chunking_witness:
  "(\<exists>v. randombytes_win32 5 1048577 (serviced [GenTrue (\<lambda>i. 1), GenTrue (\<lambda>i. 2)]) = Returned v \<and>
      calls_since (serviced [GenTrue (\<lambda>i. 1), GenTrue (\<lambda>i. 2)]) v =
        [CryptAcquireContext, CryptGenRandom 1048576 5, CryptGenRandom 1 1048581, CryptReleaseContext] \<and>
      (\<exists>cs. calls_since (serviced [GenTrue (\<lambda>i. 1), GenTrue (\<lambda>i. 2)]) v =
          CryptAcquireContext # cs @ [CryptReleaseContext] \<and> length cs = 2)) \<and>
   (\<exists>v. randombytes_win32 5 4 (serviced [GenFalse, GenTrue (\<lambda>i. 1)]) = Aborted v \<and>
      calls_since (serviced [GenFalse, GenTrue (\<lambda>i. 1)]) v =
        [CryptAcquireContext, CryptGenRandom 4 5, Abort]) \<and>
   win_loop 5 4 (serviced [GenFalse, GenTrue (\<lambda>i. 1)]) =
     Aborted (called Abort ((called (CryptGenRandom 4 5) (serviced [GenFalse, GenTrue (\<lambda>i. 1)]))\<lparr> gens := [GenTrue (\<lambda>i. 1)] \<rparr>))"
proof -
  have script: "acquires (serviced xs) = True # []" "gens (serviced xs) = xs"
    "releases (serviced xs) = True # []" for xs
    by (simp_all add: serviced_def)
  define W where "W = serviced [GenTrue (\<lambda>i. 1), GenTrue (\<lambda>i. 2)]"
  have "acquires W = True # [] \<and> gens W = GenTrue (\<lambda>i. 1) # GenTrue (\<lambda>i. 2) # [] \<and>
      releases W = True # []"
    by (simp add: W_def script)
  from service_chunking [where w = W and out = 5, THEN conjunct2, THEN conjunct1, rule_format, OF this]
  obtain v where v: "randombytes_win32 5 1048577 W = Returned v"
    "calls_since W v = [CryptAcquireContext, CryptGenRandom 1048576 5,
        CryptGenRandom 1 (5 + 1048576), CryptReleaseContext]"
    by blast
  from service_chunking [where w = W and out = 5 and n = 1048577, THEN conjunct1, rule_format, OF v(1)]
  obtain cs where "calls_since W v = CryptAcquireContext # cs @ [CryptReleaseContext]"
    "length cs = (1048577 + 1048575) div 1048576"
    by blast
  then have "\<exists>cs. calls_since W v = CryptAcquireContext # cs @ [CryptReleaseContext] \<and> length cs = 2"
    by (intro exI [of _ cs]) simp
  with v have 1: "\<exists>v. randombytes_win32 5 1048577 W = Returned v \<and>
      calls_since W v =
        [CryptAcquireContext, CryptGenRandom 1048576 5, CryptGenRandom 1 1048581, CryptReleaseContext] \<and>
      (\<exists>cs. calls_since W v = CryptAcquireContext # cs @ [CryptReleaseContext] \<and> length cs = 2)"
    by (intro exI [of _ v]) simp
  define F where "F = serviced [GenFalse, GenTrue (\<lambda>i. 1)]"
  have f: "0 < (4::nat) \<and> acquires F = True # [] \<and> gens F = GenFalse # [GenTrue (\<lambda>i. 1)]"
    by (simp add: F_def script)
  from service_chunking [where w = F and out = 5 and n = 4, THEN conjunct2, THEN conjunct2,
      THEN conjunct2, rule_format, OF f]
  have 2: "\<exists>v. randombytes_win32 5 4 F = Aborted v \<and>
      calls_since F v = [CryptAcquireContext, CryptGenRandom 4 5, Abort]"
    by simp
  from f have "0 < (4::nat) \<and> gens F = GenFalse # [GenTrue (\<lambda>i. 1)]" by simp
  from service_chunking [where w = F and out = 5 and n = 4, THEN conjunct2, THEN conjunct2,
      THEN conjunct1, rule_format, OF this]
  have 3: "win_loop 5 4 F =
     Aborted (called Abort ((called (CryptGenRandom 4 5) F)\<lparr> gens := [GenTrue (\<lambda>i. 1)] \<rparr>))"
    by simp
  from 1 2 3 show ?thesis unfolding W_def F_def by (intro conjI)
qed

section \<open>The host bridge\<close>

lemma invoke_served:
  "(case invoke c f buf len w of Inr w' \<Rightarrow> Returned w' | Inl w' \<Rightarrow> abort (called ConsoleError w')) =
   served c f buf len w"
  by (simp add: invoke_def served_def Let_def abort_def split: option.splits)

lemma bridge_no_view:
  "\<not> view_fits buf len w \<Longrightarrow>
   crypto_get_random_values buf len w = Aborted (called Abort (called ConsoleError w))"
  by (auto simp: crypto_get_random_values_def try_block_def view_fits_def abort_def
      split: option.splits)

lemma bridge_crypto_null:
  "view_fits buf len w \<Longrightarrow> crypto (host w) = Null \<Longrightarrow>
   crypto_get_random_values buf len w = Aborted (called Abort (called ConsoleError w))"
  by (auto simp: crypto_get_random_values_def try_block_def view_fits_def abort_def
      split: option.splits)

lemma bridge_crypto:
  "view_fits buf len w \<Longrightarrow> crypto (host w) = Bound (Some f) \<Longrightarrow>
   crypto_get_random_values buf len w = served (GetRandomValues ViaCrypto len) f buf len w"
  by (auto simp: crypto_get_random_values_def try_block_def view_fits_def invoke_served
      split: option.splits)

lemma bridge_globalThis_null:
  "view_fits buf len w \<Longrightarrow> crypto (host w) \<in> {Undefined, Bound None} \<Longrightarrow>
   globalThis (host w) = Null \<Longrightarrow>
   crypto_get_random_values buf len w = Aborted (called Abort (called ConsoleError w))"
  by (auto simp: crypto_get_random_values_def try_block_def view_fits_def abort_def
      split: option.splits)

lemma bridge_globalThis:
  "view_fits buf len w \<Longrightarrow> crypto (host w) \<in> {Undefined, Bound None} \<Longrightarrow>
   globalThis (host w) = Bound (Some (Some f)) \<Longrightarrow>
   crypto_get_random_values buf len w = served (GetRandomValues ViaGlobalThis len) f buf len w"
  by (auto simp: crypto_get_random_values_def try_block_def view_fits_def invoke_served
      split: option.splits)

lemma bridge_require:
  assumes "view_fits buf len w" and "crypto (host w) \<in> {Undefined, Bound None}"
    and "globalThis (host w) \<in> {Undefined, Bound None, Bound (Some None)}"
  shows "require (host w) \<in> {Undefined, Null} \<Longrightarrow>
      crypto_get_random_values buf len w = Aborted (called Abort (called ConsoleError w))"
    and "require (host w) = Bound None \<Longrightarrow>
      crypto_get_random_values buf len w =
        Aborted (called Abort (called ConsoleError (called Require w)))"
    and "require (host w) = Bound (Some f) \<Longrightarrow>
      crypto_get_random_values buf len w = served (RandomBytes len) f buf len (called Require w)"
  using assms
  by (auto simp: crypto_get_random_values_def try_block_def view_fits_def invoke_served Let_def
      abort_def split: option.splits)

lemma crypto_cases:
  fixes c :: "rand_fn option binding"
  obtains "c = Null" | f where "c = Bound (Some f)" | "c \<in> {Undefined, Bound None}"
proof (cases c)
  case (Bound x)
  then show ?thesis using that by (cases x) auto
qed (use that in auto)

lemma globalThis_cases:
  fixes g :: "rand_fn option option binding"
  obtains "g = Null" | f where "g = Bound (Some (Some f))"
  | "g \<in> {Undefined, Bound None, Bound (Some None)}"
proof (cases g)
  case (Bound x)
  show ?thesis
  proof (cases x)
    case None
    with Bound that show ?thesis by auto
  next
    case (Some y)
    with Bound that show ?thesis by (cases y) auto
  qed
qed (use that in auto)

lemma require_cases:
  fixes r :: "rand_fn option binding"
  obtains "r \<in> {Undefined, Null}" | "r = Bound None" | f where "r = Bound (Some f)"
proof (cases r)
  case (Bound x)
  then show ?thesis using that by (cases x) auto
qed (use that in auto)

lemma bridge_cases:
  obtains (crypto) f where "view_fits buf len w" "crypto (host w) = Bound (Some f)"
      "crypto_get_random_values buf len w = served (GetRandomValues ViaCrypto len) f buf len w"
  | (globalThis) f where "view_fits buf len w" "globalThis (host w) = Bound (Some (Some f))"
      "crypto_get_random_values buf len w = served (GetRandomValues ViaGlobalThis len) f buf len w"
  | (module) f where "view_fits buf len w" "require (host w) = Bound (Some f)"
      "crypto_get_random_values buf len w = served (RandomBytes len) f buf len (called Require w)"
  | (broken) "crypto_get_random_values buf len w =
        Aborted (called Abort (called ConsoleError (called Require w)))"
  | (none) "crypto_get_random_values buf len w = Aborted (called Abort (called ConsoleError w))"
proof (cases "view_fits buf len w")
  case False
  then show ?thesis using bridge_no_view none by blast
next
  case v: True
  show ?thesis
  proof (cases rule: crypto_cases [of "crypto (host w)"])
    case 1
    then show ?thesis using bridge_crypto_null [OF v] none by blast
  next
    case (2 f)
    then show ?thesis using bridge_crypto [OF v] crypto v by blast
  next
    case c: 3
    show ?thesis
    proof (cases rule: globalThis_cases [of "globalThis (host w)"])
      case 1
      then show ?thesis using bridge_globalThis_null [OF v c] none by blast
    next
      case (2 f)
      then show ?thesis using bridge_globalThis [OF v c] globalThis v by blast
    next
      case g: 3
      show ?thesis
      proof (cases rule: require_cases [of "require (host w)"])
        case 1
        then show ?thesis using bridge_require(1) [OF v c g] none by blast
      next
        case 2
        then show ?thesis using bridge_require(2) [OF v c g] broken by blast
      next
        case (3 f)
        then show ?thesis using bridge_require(3) [OF v c g] module v by blast
      qed
    qed
  qed
qed

lemma overlay_store_list: "mem (store_list a bs w) = overlay a bs (mem w)"
  by (rule ext) (simp add: store_list_mem overlay_def)

lemma stores_since_app: "wlog w' = wlog w @ ext \<Longrightarrow> stores_since w w' = ext"
  by (simp add: stores_since_def)

lemma served_complete:
  "served c f buf len w = Returned w' \<Longrightarrow>
     \<exists>g. f len = Some g \<and> filled buf len (map g [0 ..< len]) w w'"
  by (auto simp: served_def filled_def overlay_store_list stores_since_def split: option.splits)

lemma served_aborted:
  "served c f buf len w = Aborted w' \<Longrightarrow>
     mem w' = mem w \<and> wlog w' = wlog w \<and> calls w' = calls w @ [c, ConsoleError, Abort]"
  by (auto simp: served_def split: option.splits)

lemma served_not_pending: "served c f buf len w \<noteq> Pending w'"
  by (simp add: served_def split: option.splits)

lemma filled_after_call: "filled buf len bs (called c w) w' \<Longrightarrow> filled buf len bs w w'"
  by (simp add: filled_def stores_since_def)

lemma bridge_filled:
  assumes "crypto_get_random_values buf len w = Returned w'"
  shows "\<exists>f g. (crypto (host w) = Bound (Some f) \<or> globalThis (host w) = Bound (Some (Some f)) \<or>
            require (host w) = Bound (Some f)) \<and>
      f len = Some g \<and> filled buf len (map g [0 ..< len]) w w'"
proof (cases rule: bridge_cases [of buf len w])
  case (crypto f)
  with assms served_complete show ?thesis by fastforce
next
  case (globalThis f)
  with assms served_complete show ?thesis by fastforce
next
  case (module f)
  with assms have "served (RandomBytes len) f buf len (called Require w) = Returned w'" by simp
  from served_complete [OF this] obtain g where "f len = Some g"
    "filled buf len (map g [0 ..< len]) (called Require w) w'" by blast
  with module(2) filled_after_call show ?thesis by blast
next
  case broken
  with assms show ?thesis by simp
next
  case none
  with assms show ?thesis by simp
qed

lemma bridge_aborted:
  assumes "crypto_get_random_values buf len w = Aborted w'"
  shows "mem w' = mem w \<and> wlog w' = wlog w \<and>
     (\<exists>cs. calls w' = calls w @ cs @ [ConsoleError, Abort])"
proof (cases rule: bridge_cases [of buf len w])
  case (crypto f)
  with assms served_aborted show ?thesis by fastforce
next
  case (globalThis f)
  with assms served_aborted show ?thesis by fastforce
next
  case (module f)
  with assms have "served (RandomBytes len) f buf len (called Require w) = Aborted w'" by simp
  from served_aborted [OF this] show ?thesis
    by (intro conjI exI [of _ "[Require, RandomBytes len]"]) simp_all
next
  case broken
  with assms show ?thesis by (intro conjI exI [of _ "[Require]"]) auto
next
  case none
  with assms show ?thesis by (intro conjI exI [of _ "[]"]) auto
qed

lemma bridge_not_pending: "crypto_get_random_values buf len w \<noteq> Pending w'"
  by (cases rule: bridge_cases [of buf len w]) (simp_all add: served_not_pending)

lemma bridge_returned_view:
  assumes "crypto_get_random_values buf len w = Returned w'"
  shows "view_fits buf len w"
  using assms by (cases rule: bridge_cases [of buf len w]) simp_all

text \<open>
  C6, as amended. The host bridge builds the view and then tries three host
  capabilities in this order, invoking the first whose test holds, once:
  \<^item> \<open>crypto.getRandomValues\<close>, when \<open>crypto\<close> is bound and has the function;
  \<^item> otherwise \<open>globalThis.crypto.getRandomValues\<close>, when all three are there;
  \<^item> otherwise, when \<open>require\<close> is bound, \<open>require('crypto').randomBytes\<close>, whose bytes are
    copied into the view.
  The process is aborted after a diagnostic, with no capability invoked, when the view
  cannot be built, when a test itself throws (\<open>crypto\<close> is \<open>null\<close>; or \<open>crypto\<close> has no function
  and \<open>globalThis\<close> is \<open>null\<close>), when none of the three is there, and when \<open>require\<close> is \<open>null\<close>
  or throws. The invoked capability either yields the bytes that fill the whole view, or
  throws and the process is aborted after a diagnostic (\<open>served\<close>). So a call that returns
  has filled the view completely with the bytes a host generator yielded; a call that
  aborts has logged the diagnostic last before \<open>abort\<close> and has stored nothing; and the
  call never ends otherwise. The Dilithium entry point is this call.
\<close>

theorem host_bridge_probing:
  "(\<not> view_fits buf len w \<longrightarrow>
      crypto_get_random_values buf len w = Aborted (called Abort (called ConsoleError w))) \<and>
   (view_fits buf len w \<longrightarrow>
      (crypto (host w) = Null \<longrightarrow>
         crypto_get_random_values buf len w = Aborted (called Abort (called ConsoleError w))) \<and>
      (crypto (host w) = Bound (Some f) \<longrightarrow>
         crypto_get_random_values buf len w = served (GetRandomValues ViaCrypto len) f buf len w) \<and>
      (crypto (host w) \<in> {Undefined, Bound None} \<longrightarrow>
         (globalThis (host w) = Null \<longrightarrow>
            crypto_get_random_values buf len w = Aborted (called Abort (called ConsoleError w))) \<and>
         (globalThis (host w) = Bound (Some (Some f)) \<longrightarrow>
            crypto_get_random_values buf len w =
              served (GetRandomValues ViaGlobalThis len) f buf len w) \<and>
         (globalThis (host w) \<in> {Undefined, Bound None, Bound (Some None)} \<longrightarrow>
            (require (host w) \<in> {Undefined, Null} \<longrightarrow>
               crypto_get_random_values buf len w =
                 Aborted (called Abort (called ConsoleError w))) \<and>
            (require (host w) = Bound None \<longrightarrow>
               crypto_get_random_values buf len w =
                 Aborted (called Abort (called ConsoleError (called Require w)))) \<and>
            (require (host w) = Bound (Some f) \<longrightarrow>
               crypto_get_random_values buf len w =
                 served (RandomBytes len) f buf len (called Require w))))) \<and>
   (crypto_get_random_values buf len w = Returned w' \<longrightarrow>
      (\<exists>h g. (crypto (host w) = Bound (Some h) \<or> globalThis (host w) = Bound (Some (Some h)) \<or>
                require (host w) = Bound (Some h)) \<and>
         h len = Some g \<and> filled buf len (map g [0 ..< len]) w w')) \<and>
   (crypto_get_random_values buf len w = Aborted w' \<longrightarrow>
      mem w' = mem w \<and> wlog w' = wlog w \<and>
      (\<exists>cs. calls_since w w' = cs @ [ConsoleError, Abort])) \<and>
   crypto_get_random_values buf len w \<noteq> Pending w' \<and>
   randombytes_wasm buf len w = crypto_get_random_values buf len w"
proof -
  have third: "(require (host w) \<in> {Undefined, Null} \<longrightarrow>
         crypto_get_random_values buf len w = Aborted (called Abort (called ConsoleError w))) \<and>
      (require (host w) = Bound None \<longrightarrow>
         crypto_get_random_values buf len w =
           Aborted (called Abort (called ConsoleError (called Require w)))) \<and>
      (require (host w) = Bound (Some f) \<longrightarrow>
         crypto_get_random_values buf len w = served (RandomBytes len) f buf len (called Require w))"
    if "view_fits buf len w" "crypto (host w) \<in> {Undefined, Bound None}"
      "globalThis (host w) \<in> {Undefined, Bound None, Bound (Some None)}"
    using bridge_require [OF that] by blast
  have second: "(globalThis (host w) = Null \<longrightarrow>
         crypto_get_random_values buf len w = Aborted (called Abort (called ConsoleError w))) \<and>
      (globalThis (host w) = Bound (Some (Some f)) \<longrightarrow>
         crypto_get_random_values buf len w =
           served (GetRandomValues ViaGlobalThis len) f buf len w)"
    if "view_fits buf len w" "crypto (host w) \<in> {Undefined, Bound None}"
    using bridge_globalThis_null [OF that] bridge_globalThis [OF that] by blast
  have first: "(crypto (host w) = Null \<longrightarrow>
         crypto_get_random_values buf len w = Aborted (called Abort (called ConsoleError w))) \<and>
      (crypto (host w) = Bound (Some f) \<longrightarrow>
         crypto_get_random_values buf len w = served (GetRandomValues ViaCrypto len) f buf len w)"
    if "view_fits buf len w"
    using bridge_crypto_null [OF that] bridge_crypto [OF that] by blast
  have aborted: "mem w' = mem w \<and> wlog w' = wlog w \<and>
      (\<exists>cs. calls_since w w' = cs @ [ConsoleError, Abort])"
    if "crypto_get_random_values buf len w = Aborted w'"
    using bridge_aborted [OF that] by (auto simp: calls_since_def)
  have same: "randombytes_wasm buf len w = crypto_get_random_values buf len w"
    by (simp add: randombytes_wasm_def)
  from bridge_no_view [of buf len w] first second third
    bridge_filled [of buf len w w'] aborted bridge_not_pending [of buf len w w'] same
  show ?thesis by blast
qed


theorem host_bridge_probing_witness:
  "crypto_get_random_values 16777215 4 (hosted (Bound (Some web_crypto)) Undefined Undefined) =
     Aborted (called Abort (called ConsoleError (hosted (Bound (Some web_crypto)) Undefined Undefined))) \<and>
   crypto_get_random_values 16 4
      (hosted (Bound (Some web_crypto)) (Bound (Some (Some node_bytes))) (Bound (Some node_bytes))) =
     served (GetRandomValues ViaCrypto 4) web_crypto 16 4
      (hosted (Bound (Some web_crypto)) (Bound (Some (Some node_bytes))) (Bound (Some node_bytes))) \<and>
   crypto_get_random_values 16 4 (hosted (Bound None) (Bound (Some (Some web_crypto))) (Bound (Some node_bytes))) =
     served (GetRandomValues ViaGlobalThis 4) web_crypto 16 4
      (hosted (Bound None) (Bound (Some (Some web_crypto))) (Bound (Some node_bytes))) \<and>
   crypto_get_random_values 16 4 (hosted Undefined Null (Bound (Some node_bytes))) =
     Aborted (called Abort (called ConsoleError (hosted Undefined Null (Bound (Some node_bytes))))) \<and>
   crypto_get_random_values 16 4 (hosted Undefined Undefined (Bound (Some node_bytes))) =
     served (RandomBytes 4) node_bytes 16 4
      (called Require (hosted Undefined Undefined (Bound (Some node_bytes)))) \<and>
   crypto_get_random_values 16 4 (hosted Undefined Undefined (Bound None)) =
     Aborted (called Abort (called ConsoleError (called Require (hosted Undefined Undefined (Bound None))))) \<and>
   crypto_get_random_values 16 4 (hosted Undefined Undefined Undefined) =
     Aborted (called Abort (called ConsoleError (hosted Undefined Undefined Undefined))) \<and>
   (\<exists>v. crypto_get_random_values 16 4 (hosted (Bound (Some web_crypto)) Undefined Undefined) = Returned v \<and>
      stores_since (hosted (Bound (Some web_crypto)) Undefined Undefined) v = [16, 17, 18, 19] \<and>
      peek 16 4 v = [1, 2, 3, 4]) \<and>
   (\<exists>v. crypto_get_random_values 16 65537 (hosted (Bound (Some web_crypto)) Undefined Undefined) = Aborted v \<and>
      mem v = mem (hosted (Bound (Some web_crypto)) Undefined Undefined))"
proof -
  have h: "crypto (host (hosted c g r)) = c" "globalThis (host (hosted c g r)) = g"
    "require (host (hosted c g r)) = r" for c g r
    by (simp_all add: hosted_def)
  have fits: "view_fits 16 4 (hosted c g r)" "view_fits 16 65537 (hosted c g r)"
    and overflows: "\<not> view_fits 16777215 4 (hosted c g r)" for c g r
    by (simp_all add: view_fits_def hosted_def)
  note T = host_bridge_probing
  have 0: "crypto_get_random_values 16777215 4 (hosted (Bound (Some web_crypto)) Undefined Undefined) =
     Aborted (called Abort (called ConsoleError (hosted (Bound (Some web_crypto)) Undefined Undefined)))"
    by (rule T [THEN conjunct1, rule_format]) (rule overflows)
  note B = T [THEN conjunct2, THEN conjunct1, rule_format, OF fits(1)]
  have 1: "crypto_get_random_values 16 4
      (hosted (Bound (Some web_crypto)) (Bound (Some (Some node_bytes))) (Bound (Some node_bytes))) =
     served (GetRandomValues ViaCrypto 4) web_crypto 16 4
      (hosted (Bound (Some web_crypto)) (Bound (Some (Some node_bytes))) (Bound (Some node_bytes)))"
    by (rule B [THEN conjunct2, THEN conjunct1, rule_format]) (simp add: h)
  have nocrypto: "crypto (host (hosted (Bound None) g r)) \<in> {Undefined, Bound None}"
    "crypto (host (hosted Undefined g r)) \<in> {Undefined, Bound None}" for g r
    by (simp_all add: h)
  note C = B [THEN conjunct2, THEN conjunct2, rule_format]
  have 2: "crypto_get_random_values 16 4 (hosted (Bound None) (Bound (Some (Some web_crypto))) (Bound (Some node_bytes))) =
     served (GetRandomValues ViaGlobalThis 4) web_crypto 16 4
      (hosted (Bound None) (Bound (Some (Some web_crypto))) (Bound (Some node_bytes)))"
    by (rule C [OF nocrypto(1), THEN conjunct2, THEN conjunct1, rule_format]) (simp add: h)
  have 3: "crypto_get_random_values 16 4 (hosted Undefined Null (Bound (Some node_bytes))) =
     Aborted (called Abort (called ConsoleError (hosted Undefined Null (Bound (Some node_bytes)))))"
    by (rule C [where f = node_bytes, OF nocrypto(2), THEN conjunct1, rule_format]) (simp add: h)
  have noglobal: "globalThis (host (hosted Undefined Undefined r)) \<in> {Undefined, Bound None, Bound (Some None)}" for r
    by (simp add: h)
  note D = C [OF nocrypto(2), THEN conjunct2, THEN conjunct2, rule_format, OF noglobal]
  have 4: "crypto_get_random_values 16 4 (hosted Undefined Undefined (Bound (Some node_bytes))) =
     served (RandomBytes 4) node_bytes 16 4
      (called Require (hosted Undefined Undefined (Bound (Some node_bytes))))"
    by (rule D [THEN conjunct2, THEN conjunct2, rule_format]) (simp add: h)
  have 5: "crypto_get_random_values 16 4 (hosted Undefined Undefined (Bound None)) =
     Aborted (called Abort (called ConsoleError (called Require (hosted Undefined Undefined (Bound None)))))"
    by (rule D [where f = node_bytes, THEN conjunct2, THEN conjunct1, rule_format]) (simp add: h)
  have 6: "crypto_get_random_values 16 4 (hosted Undefined Undefined Undefined) =
     Aborted (called Abort (called ConsoleError (hosted Undefined Undefined Undefined)))"
    by (rule D [where f = node_bytes, THEN conjunct1, rule_format]) (simp add: h)
  define W where "W = hosted (Bound (Some web_crypto)) Undefined Undefined"
  have b: "crypto (host W) = Bound (Some web_crypto)" by (simp add: W_def h)
  have "crypto_get_random_values 16 4 W = served (GetRandomValues ViaCrypto 4) web_crypto 16 4 W"
    unfolding W_def
    by (rule B [THEN conjunct2, THEN conjunct1, rule_format]) (simp add: h)
  then obtain v where v: "crypto_get_random_values 16 4 W = Returned v"
    by (simp add: served_def web_crypto_def)
  from T [THEN conjunct2, THEN conjunct2, THEN conjunct1, rule_format, OF v]
  obtain k g where k: "crypto (host W) = Bound (Some k) \<or> globalThis (host W) = Bound (Some (Some k)) \<or>
        require (host W) = Bound (Some k)"
    and g: "k 4 = Some g" and f: "filled 16 4 (map g [0 ..< 4]) W v"
    by blast
  from k have "k = web_crypto" by (simp add: W_def h)
  with g have "g = (\<lambda>i. of_nat i + 1)" by (simp add: web_crypto_def)
  with f have f': "filled 16 4 (map (\<lambda>i. of_nat i + 1) [0 ..< 4]) W v" by simp
  have bytes: "map (\<lambda>i. of_nat i + 1) [0 ..< 4] = [1, 2, 3, 4 :: u8]"
    by (simp add: upt_conv_Cons)
  from f' have "stores_since W v = [16 ..< 16 + 4]" by (simp add: filled_def)
  then have st: "stores_since W v = [16, 17, 18, 19]" by (simp add: upt_conv_Cons)
  from f' have "mem v = overlay 16 [1, 2, 3, 4] (mem W)" by (simp add: filled_def bytes)
  then have "peek 16 4 v = [1, 2, 3, 4]"
    by (simp add: peek_def overlay_def upt_conv_Cons)
  with v st have 7: "\<exists>v. crypto_get_random_values 16 4 W = Returned v \<and>
      stores_since W v = [16, 17, 18, 19] \<and> peek 16 4 v = [1, 2, 3, 4]"
    by blast
  have "crypto_get_random_values 16 65537 W = served (GetRandomValues ViaCrypto 65537) web_crypto 16 65537 W"
    unfolding W_def
    by (rule T [THEN conjunct2, THEN conjunct1, rule_format, OF fits(2), THEN conjunct2,
          THEN conjunct1, rule_format]) (simp add: h)
  then obtain u where u: "crypto_get_random_values 16 65537 W = Aborted u"
    by (simp add: served_def web_crypto_def)
  from T [THEN conjunct2, THEN conjunct2, THEN conjunct2, THEN conjunct1, rule_format, OF u]
  have "mem u = mem W" by blast
  with u have 8: "\<exists>v. crypto_get_random_values 16 65537 W = Aborted v \<and> mem v = mem W"
    by blast
  from 0 1 2 3 4 5 6 7 8 show ?thesis unfolding W_def by (intro conjI)
qed

text \<open>
  The first available capability is not always the one used: on a host whose \<open>crypto\<close> is
  \<open>null\<close> the first test throws, so the process is aborted after the diagnostic, although
  \<open>globalThis.crypto.getRandomValues\<close> and \<open>require('crypto').randomBytes\<close> are both there
  and would both have yielded the four bytes.
\<close>

theorem null_crypto_stops_probing:
  "view_fits 16 4 (hosted Null (Bound (Some (Some web_crypto))) (Bound (Some node_bytes))) \<and>
   globalThis (host (hosted Null (Bound (Some (Some web_crypto))) (Bound (Some node_bytes)))) =
     Bound (Some (Some web_crypto)) \<and>
   web_crypto 4 \<noteq> None \<and>
   require (host (hosted Null (Bound (Some (Some web_crypto))) (Bound (Some node_bytes)))) =
     Bound (Some node_bytes) \<and>
   node_bytes 4 \<noteq> None \<and>
   crypto_get_random_values 16 4 (hosted Null (Bound (Some (Some web_crypto))) (Bound (Some node_bytes))) =
     Aborted (called Abort (called ConsoleError
       (hosted Null (Bound (Some (Some web_crypto))) (Bound (Some node_bytes))))) \<and>
   calls (final (crypto_get_random_values 16 4
       (hosted Null (Bound (Some (Some web_crypto))) (Bound (Some node_bytes))))) =
     [ConsoleError, Abort]"
proof -
  define W where "W = hosted Null (Bound (Some (Some web_crypto))) (Bound (Some node_bytes))"
  have v: "view_fits 16 4 W" by (simp add: W_def view_fits_def hosted_def)
  have c: "crypto (host W) = Null" by (simp add: W_def hosted_def)
  have r: "crypto_get_random_values 16 4 W = Aborted (called Abort (called ConsoleError W))"
    using v c by (rule bridge_crypto_null)
  have "calls W = []" by (simp add: W_def hosted_def process_start_def)
  with r have t: "calls (final (crypto_get_random_values 16 4 W)) = [ConsoleError, Abort]"
    by simp
  have g: "globalThis (host W) = Bound (Some (Some web_crypto))"
    "require (host W) = Bound (Some node_bytes)"
    by (simp_all add: W_def hosted_def)
  have a: "web_crypto 4 \<noteq> None" "node_bytes 4 \<noteq> None"
    by (simp_all add: web_crypto_def node_bytes_def)
  from v g a r t show ?thesis unfolding W_def by (intro conjI)
qed

lemma size_t_of_small: "unat xlen < 2 ^ 32 \<Longrightarrow> size_t_of xlen = unat xlen"
  by (simp add: size_t_of_def unsigned_ucast_eq take_bit_eq_mod)

text \<open>
  C8. The Kyber entry point returns status 0 whenever the bridge call returns, and 0 is
  the only status it returns. Its initializer leaves the world as it is, whatever its
  three arguments are.
\<close>

theorem kyber_status_and_init:
  "(crypto_get_random_values x (size_t_of xlen) w = Returned w' \<longrightarrow>
      randombytes_kyber x xlen w = Returned (w', 0)) \<and>
   (randombytes_kyber x xlen w = Returned (v, status) \<longrightarrow> status = 0) \<and>
   randombytes_init entropy_input personalization_string security_strength w = w \<and>
   randombytes_init entropy_input personalization_string security_strength w =
     randombytes_init entropy_input' personalization_string' security_strength' w"
  by (auto simp: randombytes_kyber_def randombytes_init_def split: outcome.splits)

theorem kyber_status_and_init_witness:
  "\<exists>v. randombytes_kyber 16 4 (hosted (Bound (Some web_crypto)) Undefined Undefined) = Returned (v, 0)"
proof -
  have "size_t_of 4 = 4" by (simp add: size_t_of_def)
  moreover have "view_fits 16 4 (hosted (Bound (Some web_crypto)) Undefined Undefined)"
    by (simp add: view_fits_def hosted_def)
  ultimately obtain v where
    "crypto_get_random_values 16 (size_t_of 4) (hosted (Bound (Some web_crypto)) Undefined Undefined) = Returned v"
    using bridge_crypto [of 16 4 "hosted (Bound (Some web_crypto)) Undefined Undefined" web_crypto]
    by (simp add: hosted_def served_def web_crypto_def)
  from kyber_status_and_init [THEN conjunct1, rule_format, OF this] show ?thesis ..
qed

section \<open>Complete fills and empty requests\<close>

lemma overlay_nil [simp]: "overlay out [] m = m"
  by (rule ext) (auto simp: overlay_def)

lemma overlay_append:
  "overlay (out + length xs) ys (overlay out xs m) = overlay out (xs @ ys) m"
  by (rule ext) (auto simp: overlay_def nth_append)

lemma kernel_supply_zero [simp]: "kernel_supply xs 0 = []"
proof (cases xs)
  case (Cons x xs')
  then show ?thesis by (cases x) simp_all
qed simp

lemma fill_loop_supply:
  "fill_loop sys out n w = Returned w' \<Longrightarrow>
   mem w' = overlay out (kernel_supply (xfers w) n) (mem w) \<and>
   length (kernel_supply (xfers w) n) = n"
proof (induction out n w rule: fill_loop_induct [where sys = sys])
  case (zero out w)
  then show ?case by (simp add: fill_loop_done)
next
  case (starved out n w)
  then show ?case by (simp add: fill_loop_starved)
next
  case (eintr out n w rs)
  then show ?case by (simp add: fill_loop_eintr)
next
  case (fail out n w e rs)
  then show ?case by (simp add: fill_loop_fail abort_def)
next
  case (avail out n w bs rs)
  define got where "got = take n bs"
  define w2 where "w2 = store_list out got ((called (sys out n w) w)\<lparr> xfers := rs \<rparr>)"
  from avail.prems avail.hyps
  have run: "fill_loop sys (out + length got) (n - length got) w2 = Returned w'"
    by (simp add: fill_loop_avail got_def w2_def del: length_take)
  from avail.IH [folded got_def, folded w2_def, OF run]
  have IH: "mem w' = overlay (out + length got) (kernel_supply (xfers w2) (n - length got)) (mem w2)"
    "length (kernel_supply (xfers w2) (n - length got)) = n - length got"
    by simp_all
  have w2: "xfers w2 = rs" "mem w2 = overlay out got (mem w)"
    by (simp_all add: w2_def overlay_store_list)
  have le: "length got \<le> n" by (simp add: got_def)
  have split: "kernel_supply (xfers w) n = got @ kernel_supply rs (n - length got)"
    using avail.hyps by (simp add: got_def del: length_take)
  from IH w2 le show ?case
    by (simp only: split overlay_append length_append) simp
qed

lemma fill_loop_pending: "fill_loop sys out n w = Pending w' \<Longrightarrow> xfers w' = []"
proof (induction out n w rule: fill_loop_induct [where sys = sys])
  case (zero out w)
  then show ?case by (simp add: fill_loop_done)
next
  case (starved out n w)
  then show ?case by (auto simp: fill_loop_starved)
next
  case (eintr out n w rs)
  then show ?case by (simp add: fill_loop_eintr)
next
  case (fail out n w e rs)
  then show ?case by (simp add: fill_loop_fail abort_def)
next
  case (avail out n w bs rs)
  then show ?case by (simp add: fill_loop_avail del: length_take)
qed

lemma fill_loop_filled:
  assumes "fill_loop sys out n w = Returned w'"
  shows "filled out n (kernel_supply (xfers w) n) w w'"
  using fill_loop_supply [OF assms] fill_loop_returned [OF assms]
  by (simp add: filled_def stores_since_def)

lemma open_loop_pending: "open_loop w = Pending w' \<Longrightarrow> opens w' = []"
proof (induction xs \<equiv> "opens w" arbitrary: w)
  case Nil
  then show ?case
    by (cases "fd w = - 1") (auto simp: open_loop_valid open_loop_starved)
next
  case (Cons r rs)
  show ?case
  proof (cases "fd w = - 1")
    case False
    with Cons.prems show ?thesis by (simp add: open_loop_valid)
  next
    case True
    show ?thesis
    proof (cases r)
      case (Opened k)
      with True Cons.hyps(2) [symmetric] Cons.prems show ?thesis
        by (simp add: open_loop_opened)
    next
      case (OpenFail e)
      show ?thesis
      proof (cases "e = EINTR")
        case False
        with True OpenFail Cons.hyps(2) [symmetric] Cons.prems show ?thesis
          by (simp add: open_loop_fail abort_def)
      next
        case e: True
        from True OpenFail e Cons.hyps(2) [symmetric] Cons.prems
        have "open_loop ((called Open w)\<lparr> opens := rs, fd := - 1 \<rparr>) = Pending w'"
          by (simp add: open_loop_eintr)
        moreover have "rs = opens ((called Open w)\<lparr> opens := rs, fd := - 1 \<rparr>)" by simp
        ultimately show ?thesis using Cons.hyps(1) by blast
      qed
    qed
  qed
qed

lemma randombytes_posix_filled:
  assumes "randombytes_posix out n w = Returned w'"
  shows "filled out n (kernel_supply (xfers w) n) w w'"
proof (cases "open_loop w")
  case (Returned w1)
  with assms have "fill_loop sys_read out n w1 = Returned w'"
    by (simp add: randombytes_posix_def and_then_def)
  then have "filled out n (kernel_supply (xfers w1) n) w1 w'" by (rule fill_loop_filled)
  moreover from Returned open_loop_frame [of w]
  have "wlog w1 = wlog w" "mem w1 = mem w" "xfers w1 = xfers w" by simp_all
  ultimately show ?thesis by (simp add: filled_def stores_since_def)
next
  case (Aborted w1)
  with assms show ?thesis by (simp add: randombytes_posix_def and_then_def)
next
  case (Pending w1)
  with assms show ?thesis by (simp add: randombytes_posix_def and_then_def)
qed

lemma randombytes_posix_pending:
  assumes "randombytes_posix out n w = Pending w'"
  shows "opens w' = [] \<or> xfers w' = []"
proof (cases "open_loop w")
  case (Returned w1)
  with assms have "fill_loop sys_read out n w1 = Pending w'"
    by (simp add: randombytes_posix_def and_then_def)
  then show ?thesis by (simp add: fill_loop_pending)
next
  case (Aborted w1)
  with assms show ?thesis by (simp add: randombytes_posix_def and_then_def)
next
  case (Pending w1)
  with assms have "open_loop w = Pending w'"
    by (simp add: randombytes_posix_def and_then_def)
  then show ?thesis by (simp add: open_loop_pending)
qed


lemma service_supply_zero [simp]: "service_supply gs 0 = []"
proof (cases gs)
  case (Cons g gs')
  then show ?thesis by (cases g) simp_all
qed simp

lemma win_loop_supply:
  "win_loop out n w = Returned w' \<Longrightarrow>
   mem w' = overlay out (service_supply (gens w) n) (mem w) \<and>
   length (service_supply (gens w) n) = n"
proof (induction n arbitrary: out w rule: less_induct)
  case (less n)
  show ?case
  proof (cases "n = 0")
    case True
    with less.prems show ?thesis by (simp add: win_loop_done)
  next
    case False
    then have pos: "0 < n" by simp
    show ?thesis
    proof (cases "gens w")
      case Nil
      with pos less.prems show ?thesis by (simp add: win_loop_starved)
    next
      case (Cons r rs)
      show ?thesis
      proof (cases r)
        case GenFalse
        with pos Cons less.prems show ?thesis by (simp add: win_loop_false abort_def)
      next
        case (GenTrue g)
        define bs where "bs = map g [0 ..< chunk n]"
        define w2 where "w2 = store_list out bs
            ((called (CryptGenRandom (chunk n) out) w)\<lparr> gens := rs \<rparr>)"
        have len: "length bs = chunk n" by (simp add: bs_def)
        from pos Cons GenTrue less.prems
        have run: "win_loop (out + chunk n) (n - chunk n) w2 = Returned w'"
          by (simp add: win_loop_true w2_def bs_def)
        have smaller: "n - chunk n < n" using pos chunk_bounds(3) [OF pos] by simp
        from less.IH [OF smaller run]
        have IH: "mem w' = overlay (out + chunk n) (service_supply (gens w2) (n - chunk n)) (mem w2)"
          "length (service_supply (gens w2) (n - chunk n)) = n - chunk n"
          by simp_all
        have w2: "gens w2 = rs" "mem w2 = overlay out bs (mem w)"
          by (simp_all add: w2_def overlay_store_list)
        have split: "service_supply (gens w) n = bs @ service_supply rs (n - chunk n)"
          using pos Cons GenTrue by (simp add: bs_def)
        from IH w2 len chunk_bounds(1) [of n] show ?thesis
          by (simp add: split overlay_append [of out bs, unfolded len])
      qed
    qed
  qed
qed

lemma win_loop_pending: "win_loop out n w = Pending w' \<Longrightarrow> gens w' = []"
proof (induction n arbitrary: out w rule: less_induct)
  case (less n)
  show ?case
  proof (cases "n = 0")
    case True
    with less.prems show ?thesis by (simp add: win_loop_done)
  next
    case False
    then have pos: "0 < n" by simp
    show ?thesis
    proof (cases "gens w")
      case Nil
      with pos less.prems show ?thesis by (auto simp: win_loop_starved)
    next
      case (Cons r rs)
      show ?thesis
      proof (cases r)
        case GenFalse
        with pos Cons less.prems show ?thesis by (simp add: win_loop_false abort_def)
      next
        case (GenTrue g)
        have smaller: "n - chunk n < n" using pos chunk_bounds(3) [OF pos] by simp
        from pos Cons GenTrue less.prems less.IH [OF smaller] show ?thesis
          by (simp add: win_loop_true)
      qed
    qed
  qed
qed

lemma randombytes_win32_filled:
  assumes "randombytes_win32 out n w = Returned w'"
  shows "filled out n (service_supply (gens w) n) w w'"
proof -
  define w1 where "w1 = called CryptAcquireContext w"
  from assms obtain rest where acq: "acquires w = True # rest"
    by (cases "acquires w")
      (auto simp: randombytes_win32_def Let_def abort_def split: if_splits)
  define w2 where "w2 = w1\<lparr> acquires := rest \<rparr>"
  from assms acq obtain w3 where loop: "win_loop out n w2 = Returned w3"
    by (cases "win_loop out n w2")
      (auto simp: randombytes_win32_def Let_def and_then_def w1_def w2_def)
  define w4 where "w4 = called CryptReleaseContext w3"
  from assms acq loop obtain rest' where rel: "releases w3 = True # rest'"
    and fin: "w' = w4\<lparr> releases := rest' \<rparr>"
    by (cases "releases w3")
      (auto simp: randombytes_win32_def Let_def and_then_def abort_def w1_def w2_def w4_def
            split: if_splits)
  from win_loop_supply [OF loop]
  have "mem w3 = overlay out (service_supply (gens w) n) (mem w)"
    "length (service_supply (gens w) n) = n"
    by (simp_all add: w2_def w1_def)
  moreover from randombytes_win32_returned(1) [OF assms]
  have "stores_since w w' = [out ..< out + n]" by (rule stores_since_app)
  ultimately show ?thesis by (simp add: filled_def fin w4_def)
qed

lemma randombytes_win32_pending:
  assumes "randombytes_win32 out n w = Pending w'"
  shows "acquires w' = [] \<or> gens w' = [] \<or> releases w' = []"
proof (cases "acquires w")
  case Nil
  with assms show ?thesis by (auto simp: randombytes_win32_def Let_def)
next
  case (Cons ok rest)
  define w2 where "w2 = (called CryptAcquireContext w)\<lparr> acquires := rest \<rparr>"
  show ?thesis
  proof (cases ok)
    case False
    with assms Cons show ?thesis by (simp add: randombytes_win32_def Let_def abort_def)
  next
    case True
    show ?thesis
    proof (cases "win_loop out n w2")
      case (Returned w3)
      with assms Cons True show ?thesis
        by (cases "releases w3")
          (auto simp: randombytes_win32_def Let_def and_then_def abort_def w2_def split: if_splits)
    next
      case (Aborted w3)
      with assms Cons True show ?thesis
        by (simp add: randombytes_win32_def Let_def and_then_def w2_def)
    next
      case (Pending w3)
      with assms Cons True have "w' = w3"
        by (simp add: randombytes_win32_def Let_def and_then_def w2_def)
      with Pending win_loop_pending show ?thesis by blast
    qed
  qed
qed

lemma lcg_filled: "filled out L (lcg_supply (rng_state w) L) w (lcg_loop 0 out L w)"
proof -
  have "mem (lcg_loop 0 out L w) = overlay out (lcg_supply (rng_state w) L) (mem w)"
    by (rule ext) (auto simp: lcg_loop_mem overlay_def lcg_supply_def)
  then show ?thesis
    by (simp add: filled_def lcg_supply_def lcg_loop_wlog stores_since_def)
qed

lemma randombytes_kyber_returned:
  "randombytes_kyber x xlen w = Returned (w', st) \<Longrightarrow>
   crypto_get_random_values x (size_t_of xlen) w = Returned w'"
  by (auto simp: randombytes_kyber_def split: outcome.splits)

lemma randombytes_kyber_not_pending: "randombytes_kyber x xlen w \<noteq> Pending w'"
  using bridge_not_pending [of x "size_t_of xlen" w]
  by (auto simp: randombytes_kyber_def split: outcome.splits)

text \<open>
  C1. A call for \<open>L\<close> bytes at \<open>out\<close> that returns has filled the buffer (\<open>filled\<close>): memory
  is the memory before the call with \<open>L\<close> bytes of backend output laid over the buffer and
  is unchanged elsewhere, and the call has stored to the \<open>L\<close> addresses of the buffer, to
  each once, in order. The backend output is
  \<^item> for the test generator, which always returns, the bytes of its recurrence;
  \<^item> for the platform crypto service, the bytes of its answers, chunk after chunk;
  \<^item> for the OS syscall and the device file, the bytes the kernel transferred, in the
    order of the transfers, interrupted calls adding nothing;
  \<^item> for the host bridge, the bytes the host generator yielded.
  A call ends in one of three ways. When it returns, the buffer is filled; otherwise the
  process was aborted, or (\<open>Pending\<close>) the call is waiting for an answer that the list of
  answers in the world does not hold, which the host bridge never does.

  The Kyber entry point fills \<open>size_t_of xlen\<close> bytes, the length after its cast to
  \<open>size_t\<close>. That is the requested length whenever the request is below \<open>2 ^ 32\<close>, as every
  length of a buffer in the 32-bit address space of the module is.
\<close>

theorem fill_is_complete:
  "(\<exists>v. randombytes_lcg out L w = Returned v \<and> filled out L (lcg_supply (rng_state w) L) w v) \<and>
   (randombytes_win32 out L w = Returned w' \<longrightarrow> filled out L (service_supply (gens w) L) w w') \<and>
   (randombytes_win32 out L w = Pending w' \<longrightarrow>
      acquires w' = [] \<or> gens w' = [] \<or> releases w' = []) \<and>
   (randombytes_linux out L w = Returned w' \<longrightarrow> filled out L (kernel_supply (xfers w) L) w w') \<and>
   (randombytes_linux out L w = Pending w' \<longrightarrow> xfers w' = []) \<and>
   (randombytes_posix out L w = Returned w' \<longrightarrow> filled out L (kernel_supply (xfers w) L) w w') \<and>
   (randombytes_posix out L w = Pending w' \<longrightarrow> opens w' = [] \<or> xfers w' = []) \<and>
   (randombytes_wasm out L w = Returned w' \<longrightarrow>
      (\<exists>h g. (crypto (host w) = Bound (Some h) \<or> globalThis (host w) = Bound (Some (Some h)) \<or>
                require (host w) = Bound (Some h)) \<and>
         h L = Some g \<and> filled out L (map g [0 ..< L]) w w')) \<and>
   randombytes_wasm out L w \<noteq> Pending w' \<and>
   (randombytes_kyber out xlen w = Returned (w', status) \<longrightarrow>
      (\<exists>h g. (crypto (host w) = Bound (Some h) \<or> globalThis (host w) = Bound (Some (Some h)) \<or>
                require (host w) = Bound (Some h)) \<and>
         h (size_t_of xlen) = Some g \<and>
         filled out (size_t_of xlen) (map g [0 ..< size_t_of xlen]) w w')) \<and>
   randombytes_kyber out xlen w \<noteq> Pending w' \<and>
   (unat xlen < 2 ^ 32 \<longrightarrow> size_t_of xlen = unat xlen)"
proof -
  have lcg: "\<exists>v. randombytes_lcg out L w = Returned v \<and>
      filled out L (lcg_supply (rng_state w) L) w v"
    by (simp add: randombytes_lcg_def lcg_filled)
  have linux: "filled out L (kernel_supply (xfers w) L) w w'"
    if "randombytes_linux out L w = Returned w'"
    using that unfolding randombytes_linux_def by (rule fill_loop_filled)
  have linux': "xfers w' = []" if "randombytes_linux out L w = Pending w'"
    using that unfolding randombytes_linux_def by (rule fill_loop_pending)
  have wasm: "\<exists>h g. (crypto (host w) = Bound (Some h) \<or> globalThis (host w) = Bound (Some (Some h)) \<or>
                require (host w) = Bound (Some h)) \<and>
         h L = Some g \<and> filled out L (map g [0 ..< L]) w w'"
    if "randombytes_wasm out L w = Returned w'"
    using that unfolding randombytes_wasm_def by (rule bridge_filled)
  have wasm': "randombytes_wasm out L w \<noteq> Pending w'"
    unfolding randombytes_wasm_def by (rule bridge_not_pending)
  have kyber: "\<exists>h g. (crypto (host w) = Bound (Some h) \<or> globalThis (host w) = Bound (Some (Some h)) \<or>
                require (host w) = Bound (Some h)) \<and>
         h (size_t_of xlen) = Some g \<and>
         filled out (size_t_of xlen) (map g [0 ..< size_t_of xlen]) w w'"
    if "randombytes_kyber out xlen w = Returned (w', status)"
    using randombytes_kyber_returned [OF that] by (rule bridge_filled)
  from lcg randombytes_win32_filled [of out L w w'] randombytes_win32_pending [of out L w w']
    linux linux' randombytes_posix_filled [of out L w w'] randombytes_posix_pending [of out L w w']
    wasm wasm' kyber randombytes_kyber_not_pending [of out xlen w w'] size_t_of_small [of xlen]
  show ?thesis by blast
qed


theorem fill_is_complete_witness:
  "(\<exists>v. randombytes_win32 5 3 (serviced [GenTrue (\<lambda>i. 1)]) = Returned v \<and>
      filled 5 3 [1, 1, 1] (serviced [GenTrue (\<lambda>i. 1)]) v) \<and>
   (\<exists>v. randombytes_win32 5 3 (serviced []) = Pending v \<and> gens v = []) \<and>
   (\<exists>v. randombytes_linux 10 3 (scripted [Avail [7, 8], Fail EINTR, Avail [9]]) = Returned v \<and>
      filled 10 3 [7, 8, 9] (scripted [Avail [7, 8], Fail EINTR, Avail [9]]) v) \<and>
   (\<exists>v. randombytes_linux 10 3 (scripted [Avail [7]]) = Pending v \<and> xfers v = []) \<and>
   (\<exists>v. randombytes_posix 10 3 (unopened [OpenFail EINTR, Opened 3] [Avail [7, 8, 9]]) = Returned v \<and>
      filled 10 3 [7, 8, 9] (unopened [OpenFail EINTR, Opened 3] [Avail [7, 8, 9]]) v) \<and>
   (\<exists>v. randombytes_posix 10 3 (unopened [OpenFail EINTR] [Avail [7, 8, 9]]) = Pending v \<and>
      opens v = []) \<and>
   (\<exists>v. randombytes_wasm 16 4 (hosted (Bound (Some web_crypto)) Undefined Undefined) = Returned v \<and>
      filled 16 4 [1, 2, 3, 4] (hosted (Bound (Some web_crypto)) Undefined Undefined) v) \<and>
   (\<exists>v. randombytes_kyber 16 4 (hosted Undefined Undefined (Bound (Some node_bytes))) = Returned (v, 0) \<and>
      filled 16 4 [2, 3, 4, 5] (hosted Undefined Undefined (Bound (Some node_bytes))) v) \<and>
   size_t_of 4 = unat (4 :: u64)"
proof -
  note T = fill_is_complete
  define S where "S = serviced [GenTrue (\<lambda>i. 1)]"
  obtain v1 where v1: "randombytes_win32 5 3 S = Returned v1"
    by (simp add: S_def randombytes_win32_def serviced_def process_start_def Let_def and_then_def
        win_loop_true win_loop_done chunk_def)
  have "service_supply (gens S) 3 = [1, 1, 1]"
    by (simp add: S_def serviced_def chunk_def upt_conv_Cons)
  with T [THEN conjunct2, THEN conjunct1, rule_format, OF v1]
  have "filled 5 3 [1, 1, 1] S v1" by simp
  with v1 have 1: "\<exists>v. randombytes_win32 5 3 S = Returned v \<and> filled 5 3 [1, 1, 1] S v"
    by blast
  obtain p1 where p1: "randombytes_win32 5 3 (serviced []) = Pending p1"
    by (simp add: randombytes_win32_def serviced_def process_start_def Let_def and_then_def
        win_loop_starved)
  from T [THEN conjunct2, THEN conjunct2, THEN conjunct1, rule_format, OF p1]
  have "acquires p1 = [] \<or> gens p1 = [] \<or> releases p1 = []" .
  moreover from p1 have "acquires p1 = []" "releases p1 = [True]"
    by (auto simp: randombytes_win32_def serviced_def process_start_def Let_def and_then_def
        win_loop_starved)
  ultimately have "gens p1 = []" using p1
    by (auto simp: randombytes_win32_def serviced_def process_start_def Let_def and_then_def
        win_loop_starved)
  with p1 have 2: "\<exists>v. randombytes_win32 5 3 (serviced []) = Pending v \<and> gens v = []"
    by blast
  define K where "K = scripted [Avail [7, 8], Fail EINTR, Avail [9]]"
  obtain v2 where v2: "randombytes_linux 10 3 K = Returned v2"
    by (simp add: K_def randombytes_linux_def scripted_def process_start_def fill_loop.simps Let_def)
  have "kernel_supply (xfers K) 3 = [7, 8, 9]" by (simp add: K_def scripted_def)
  with T [THEN conjunct2, THEN conjunct2, THEN conjunct2, THEN conjunct1, rule_format, OF v2]
  have "filled 10 3 [7, 8, 9] K v2" by simp
  with v2 have 3: "\<exists>v. randombytes_linux 10 3 K = Returned v \<and> filled 10 3 [7, 8, 9] K v"
    by blast
  obtain p2 where p2: "randombytes_linux 10 3 (scripted [Avail [7]]) = Pending p2"
    by (simp add: randombytes_linux_def scripted_def process_start_def fill_loop.simps Let_def)
  from T [THEN conjunct2, THEN conjunct2, THEN conjunct2, THEN conjunct2, THEN conjunct1,
      rule_format, OF p2]
  have "xfers p2 = []" .
  with p2 have 4: "\<exists>v. randombytes_linux 10 3 (scripted [Avail [7]]) = Pending v \<and> xfers v = []"
    by blast
  define U where "U = unopened [OpenFail EINTR, Opened 3] [Avail [7, 8, 9]]"
  obtain v3 where v3: "randombytes_posix 10 3 U = Returned v3"
    by (simp add: U_def randombytes_posix_def unopened_def process_start_def open_loop.simps
        fill_loop.simps Let_def and_then_def)
  have "kernel_supply (xfers U) 3 = [7, 8, 9]" by (simp add: U_def unopened_def)
  with T [THEN conjunct2, THEN conjunct2, THEN conjunct2, THEN conjunct2, THEN conjunct2,
      THEN conjunct1, rule_format, OF v3]
  have "filled 10 3 [7, 8, 9] U v3" by simp
  with v3 have 5: "\<exists>v. randombytes_posix 10 3 U = Returned v \<and> filled 10 3 [7, 8, 9] U v"
    by blast
  obtain p3 where p3: "randombytes_posix 10 3 (unopened [OpenFail EINTR] [Avail [7, 8, 9]]) = Pending p3"
    and p3': "xfers p3 = [Avail [7, 8, 9]]"
    by (simp add: randombytes_posix_def unopened_def process_start_def open_loop.simps
        Let_def and_then_def)
  from T [THEN conjunct2, THEN conjunct2, THEN conjunct2, THEN conjunct2, THEN conjunct2,
      THEN conjunct2, THEN conjunct1, rule_format, OF p3] p3'
  have "opens p3 = []" by simp
  with p3 have 6: "\<exists>v. randombytes_posix 10 3 (unopened [OpenFail EINTR] [Avail [7, 8, 9]]) = Pending v \<and>
      opens v = []"
    by blast
  define B where "B = hosted (Bound (Some web_crypto)) Undefined Undefined"
  have hb: "crypto (host B) = Bound (Some web_crypto)" "globalThis (host B) = Undefined"
    "require (host B) = Undefined" "view_fits 16 4 B"
    by (simp_all add: B_def hosted_def view_fits_def)
  obtain v4 where v4: "randombytes_wasm 16 4 B = Returned v4"
    using bridge_crypto [OF hb(4) hb(1)]
    by (simp add: randombytes_wasm_def served_def web_crypto_def)
  from T [THEN conjunct2, THEN conjunct2, THEN conjunct2, THEN conjunct2, THEN conjunct2,
      THEN conjunct2, THEN conjunct2, THEN conjunct1, rule_format, OF v4]
  obtain h g where "crypto (host B) = Bound (Some h) \<or> globalThis (host B) = Bound (Some (Some h)) \<or>
      require (host B) = Bound (Some h)" "h 4 = Some g" and f4: "filled 16 4 (map g [0 ..< 4]) B v4"
    by blast
  then have "g = (\<lambda>i. of_nat i + 1)" by (simp add: hb web_crypto_def)
  with f4 have "filled 16 4 [1, 2, 3, 4] B v4" by (simp add: upt_conv_Cons)
  with v4 have 7: "\<exists>v. randombytes_wasm 16 4 B = Returned v \<and> filled 16 4 [1, 2, 3, 4] B v"
    by blast
  define N where "N = hosted Undefined Undefined (Bound (Some node_bytes))"
  have hn: "crypto (host N) = Undefined" "globalThis (host N) = Undefined"
    "require (host N) = Bound (Some node_bytes)" "view_fits 16 4 N"
    by (simp_all add: N_def hosted_def view_fits_def)
  have sz: "size_t_of 4 = 4" by (simp add: size_t_of_def)
  have "crypto_get_random_values 16 4 N = served (RandomBytes 4) node_bytes 16 4 (called Require N)"
    by (rule bridge_require(3)) (simp_all add: hn)
  then obtain v5 where v5: "randombytes_kyber 16 4 N = Returned (v5, 0)"
    by (simp add: randombytes_kyber_def sz served_def node_bytes_def)
  from T [THEN conjunct2, THEN conjunct2, THEN conjunct2, THEN conjunct2, THEN conjunct2,
      THEN conjunct2, THEN conjunct2, THEN conjunct2, THEN conjunct2, THEN conjunct1,
      rule_format, OF v5]
  obtain h' g' where "crypto (host N) = Bound (Some h') \<or> globalThis (host N) = Bound (Some (Some h')) \<or>
      require (host N) = Bound (Some h')" "h' (size_t_of 4) = Some g'"
    and f5: "filled 16 (size_t_of 4) (map g' [0 ..< size_t_of 4]) N v5"
    by blast
  then have "g' = (\<lambda>i. of_nat i + 2)" by (simp add: hn node_bytes_def)
  with f5 have "filled 16 4 [2, 3, 4, 5] N v5" by (simp add: sz upt_conv_Cons)
  with v5 have 8: "\<exists>v. randombytes_kyber 16 4 N = Returned (v, 0) \<and> filled 16 4 [2, 3, 4, 5] N v"
    by blast
  have "unat (4 :: u64) < 2 ^ 32" by simp
  from T [THEN conjunct2, THEN conjunct2, THEN conjunct2, THEN conjunct2, THEN conjunct2,
      THEN conjunct2, THEN conjunct2, THEN conjunct2, THEN conjunct2, THEN conjunct2,
      THEN conjunct2, rule_format, OF this]
  have 9: "size_t_of 4 = unat (4 :: u64)" .
  from 1 2 3 4 5 6 7 8 9 show ?thesis unfolding S_def K_def U_def B_def N_def by (intro conjI)
qed

lemma win32_zero_frame:
  "mem (final (randombytes_win32 out 0 w)) = mem w \<and> wlog (final (randombytes_win32 out 0 w)) = wlog w"
  by (simp add: randombytes_win32_def Let_def and_then_def win_loop_done
      split: list.splits)

lemma served_zero_frame:
  "mem (final (served c f buf 0 w)) = mem w \<and> wlog (final (served c f buf 0 w)) = wlog w"
  by (simp add: served_def split: option.splits)

lemma bridge_zero_frame:
  "mem (final (crypto_get_random_values buf 0 w)) = mem w \<and>
   wlog (final (crypto_get_random_values buf 0 w)) = wlog w"
  by (cases rule: bridge_cases [of buf 0 w]) (simp_all add: served_zero_frame)

lemma posix_zero: "randombytes_posix out 0 w = open_loop w"
  by (simp add: randombytes_posix_def and_then_def fill_loop_done split: outcome.splits)

text \<open>
  C5, as amended. A call for 0 bytes stores nothing in any backend. For the test
  generator and the OS syscall it returns and leaves the whole world as it is, and so it
  does for the device file once the descriptor is open. With the descriptor not yet open
  the device-file backend runs its open loop, and that is all the call is; the platform
  crypto service still acquires and releases its context, with no generate call in
  between; the host bridge still goes to the host, so that the call makes at least one
  external call.
\<close>

theorem zero_length_fill:
  "randombytes_lcg out 0 w = Returned w \<and>
   randombytes_linux out 0 w = Returned w \<and>
   (fd w \<noteq> - 1 \<longrightarrow> randombytes_posix out 0 w = Returned w) \<and>
   randombytes_posix out 0 w = open_loop w \<and>
   (acquires w = True # as \<and> releases w = True # rs \<longrightarrow>
      randombytes_win32 out 0 w =
        Returned ((called CryptReleaseContext ((called CryptAcquireContext w)\<lparr> acquires := as \<rparr>))
                    \<lparr> releases := rs \<rparr>)) \<and>
   mem (final (randombytes_posix out 0 w)) = mem w \<and>
   wlog (final (randombytes_posix out 0 w)) = wlog w \<and>
   mem (final (randombytes_win32 out 0 w)) = mem w \<and>
   wlog (final (randombytes_win32 out 0 w)) = wlog w \<and>
   mem (final (randombytes_wasm out 0 w)) = mem w \<and>
   wlog (final (randombytes_wasm out 0 w)) = wlog w \<and>
   calls_since w (final (randombytes_wasm out 0 w)) \<noteq> []"
proof -
  have lcg: "randombytes_lcg out 0 w = Returned w"
    by (simp add: randombytes_lcg_def lcg_loop.simps)
  have linux: "randombytes_linux out 0 w = Returned w"
    by (simp add: randombytes_linux_def fill_loop_done)
  have posix: "randombytes_posix out 0 w = Returned w" if "fd w \<noteq> - 1"
    using that by (simp add: posix_zero open_loop_valid)
  have win32: "randombytes_win32 out 0 w =
      Returned ((called CryptReleaseContext ((called CryptAcquireContext w)\<lparr> acquires := as \<rparr>))
                  \<lparr> releases := rs \<rparr>)"
    if "acquires w = True # as" "releases w = True # rs"
    using that by (simp add: randombytes_win32_def Let_def and_then_def win_loop_done)
  have frame: "mem (final (randombytes_posix out 0 w)) = mem w"
    "wlog (final (randombytes_posix out 0 w)) = wlog w"
    using open_loop_frame [of w] by (simp_all add: posix_zero)
  have frame': "mem (final (randombytes_wasm out 0 w)) = mem w"
    "wlog (final (randombytes_wasm out 0 w)) = wlog w"
    using bridge_zero_frame [of out w] by (simp_all add: randombytes_wasm_def)
  have crossing: "calls_since w (final (randombytes_wasm out 0 w)) \<noteq> []"
    unfolding randombytes_wasm_def
    by (cases rule: bridge_cases [of out 0 w])
      (simp_all add: served_def calls_since_def split: option.splits)
  from lcg linux posix posix_zero [of out w] win32 frame win32_zero_frame [of out w] frame'
    crossing
  show ?thesis by blast
qed

theorem zero_length_fill_witness:
  "randombytes_posix 7 0 (scripted [Avail [1]]) = Returned (scripted [Avail [1]]) \<and>
   randombytes_win32 7 0 (serviced [GenTrue (\<lambda>i. 1)]) =
     Returned ((called CryptReleaseContext ((called CryptAcquireContext (serviced [GenTrue (\<lambda>i. 1)]))\<lparr> acquires := [] \<rparr>))
                 \<lparr> releases := [] \<rparr>)"
proof -
  have "fd (scripted [Avail [1]]) \<noteq> - 1" by (simp add: scripted_def)
  from zero_length_fill [THEN conjunct2, THEN conjunct2, THEN conjunct1, rule_format, OF this]
  have 1: "randombytes_posix 7 0 (scripted [Avail [1]]) = Returned (scripted [Avail [1]])" .
  have "acquires (serviced [GenTrue (\<lambda>i. 1)]) = True # [] \<and> releases (serviced [GenTrue (\<lambda>i. 1)]) = True # []"
    by (simp add: serviced_def)
  from zero_length_fill [THEN conjunct2, THEN conjunct2, THEN conjunct2, THEN conjunct2,
      THEN conjunct1, rule_format, OF this]
  have 2: "randombytes_win32 7 0 (serviced [GenTrue (\<lambda>i. 1)]) =
     Returned ((called CryptReleaseContext ((called CryptAcquireContext (serviced [GenTrue (\<lambda>i. 1)]))\<lparr> acquires := [] \<rparr>))
                 \<lparr> releases := [] \<rparr>)" .
  from 1 2 show ?thesis ..
qed

text \<open>
  A call for 0 bytes is not free of backend interaction in three backends. In a fresh
  device-file process it opens the device and the descriptor changes from -1 to 3, or the
  process is aborted when the open fails; in the platform crypto service it acquires and
  releases the context; in the host bridge it aborts the process when the host has no
  capability, and calls \<open>crypto.getRandomValues\<close> when it has.
\<close>

theorem zero_length_touches_backend:
  "fd (unopened [Opened 3] []) = - 1 \<and>
   randombytes_posix 0 0 (unopened [Opened 3] []) =
     Returned ((called Open (unopened [Opened 3] []))\<lparr> opens := [], fd := 3 \<rparr>) \<and>
   randombytes_posix 0 0 (unopened [Opened 3] []) \<noteq> Returned (unopened [Opened 3] []) \<and>
   randombytes_posix 0 0 (unopened [OpenFail ENOENT] []) =
     Aborted (called Abort ((called Open (unopened [OpenFail ENOENT] []))\<lparr> opens := [], fd := - 1 \<rparr>)) \<and>
   calls (serviced []) = [] \<and>
   calls (final (randombytes_win32 0 0 (serviced []))) = [CryptAcquireContext, CryptReleaseContext] \<and>
   randombytes_wasm 0 0 (hosted Undefined Undefined Undefined) =
     Aborted (called Abort (called ConsoleError (hosted Undefined Undefined Undefined))) \<and>
   calls (hosted (Bound (Some web_crypto)) Undefined Undefined) = [] \<and>
   calls (final (randombytes_wasm 0 0 (hosted (Bound (Some web_crypto)) Undefined Undefined))) =
     [GetRandomValues ViaCrypto 0]"
proof -
  have u: "fd (unopened os xs) = - 1" "opens (unopened os xs) = os" "calls (unopened os xs) = []" for os xs
    by (simp_all add: unopened_def process_start_def)
  have 1: "randombytes_posix 0 0 (unopened [Opened 3] []) =
     Returned ((called Open (unopened [Opened 3] []))\<lparr> opens := [], fd := 3 \<rparr>)"
    by (simp add: posix_zero open_loop_opened u)
  have 2: "randombytes_posix 0 0 (unopened [Opened 3] []) \<noteq> Returned (unopened [Opened 3] [])"
  proof
    assume "randombytes_posix 0 0 (unopened [Opened 3] []) = Returned (unopened [Opened 3] [])"
    with 1 have "(called Open (unopened [Opened 3] []))\<lparr> opens := [], fd := 3 \<rparr> = unopened [Opened 3] []"
      by simp
    then have "fd ((called Open (unopened [Opened 3] []))\<lparr> opens := [], fd := 3 \<rparr>) = fd (unopened [Opened 3] [])"
      by (rule arg_cong)
    then show False by (simp add: u)
  qed
  have 3: "randombytes_posix 0 0 (unopened [OpenFail ENOENT] []) =
     Aborted (called Abort ((called Open (unopened [OpenFail ENOENT] []))\<lparr> opens := [], fd := - 1 \<rparr>))"
    by (simp add: posix_zero open_loop_fail u abort_def)
  have 4: "calls (serviced []) = []"
    "calls (final (randombytes_win32 0 0 (serviced []))) = [CryptAcquireContext, CryptReleaseContext]"
    by (simp_all add: serviced_def process_start_def randombytes_win32_def Let_def and_then_def win_loop_done)
  have 5: "randombytes_wasm 0 0 (hosted Undefined Undefined Undefined) =
     Aborted (called Abort (called ConsoleError (hosted Undefined Undefined Undefined)))"
    by (simp add: randombytes_wasm_def crypto_get_random_values_def try_block_def hosted_def abort_def)
  have 6: "calls (hosted (Bound (Some web_crypto)) Undefined Undefined) = []"
    "calls (final (randombytes_wasm 0 0 (hosted (Bound (Some web_crypto)) Undefined Undefined))) =
     [GetRandomValues ViaCrypto 0]"
    by (simp_all add: randombytes_wasm_def bridge_crypto view_fits_def served_def hosted_def
        web_crypto_def process_start_def)
  from u(1) 1 2 3 4 5 6 show ?thesis by (intro conjI)
qed

end
